theory Spec2Isabelle
  imports Complex_Main "HOL-Library.Multiset"
begin

section \<open>JavaScript objects and arrays\<close>

text \<open>
  A JavaScript object used as a dictionary (\<open>Record<string, V>\<close>) is an association list
  with pairwise distinct keys, in insertion order: this is the order in which
  \<open>Object.entries\<close> lists the keys (the keys here are UUIDs and display names, never
  canonical array indices). Assigning to an existing key keeps the key's position.
\<close>

fun obj_set :: "('k \<times> 'v) list \<Rightarrow> 'k \<Rightarrow> 'v \<Rightarrow> ('k \<times> 'v) list" where
  "obj_set [] k v = [(k, v)]"
| "obj_set ((k', v') # kvs) k v =
     (if k' = k then (k, v) # kvs else (k', v') # obj_set kvs k v)"

definition obj_get :: "('k \<times> 'v) list \<Rightarrow> 'k \<Rightarrow> 'v option" where
  "obj_get obj k = map_of obj k"

text \<open>\<open>Object.fromEntries\<close>: the pairs are assigned from left to right.\<close>

definition fromEntries :: "('k \<times> 'v) list \<Rightarrow> ('k \<times> 'v) list" where
  "fromEntries kvs = foldl (\<lambda>obj (k, v). obj_set obj k v) [] kvs"

text \<open>
  An array that may have holes is a list of options, \<open>None\<close> being a hole (read back as
  \<open>undefined\<close>). \<open>new Array(n)\<close> has \<open>n\<close> holes; an assignment \<open>xs[i] = v\<close> beyond the
  end extends the array with holes.
\<close>

definition new_Array :: "nat \<Rightarrow> 'a option list" where
  "new_Array n = replicate n None"

definition array_set :: "'a option list \<Rightarrow> nat \<Rightarrow> 'a \<Rightarrow> 'a option list" where
  "array_set xs i v =
     (if i < length xs then xs[i := Some v]
      else xs @ replicate (i - length xs) None @ [Some v])"

text \<open>\<open>new Set(xs)\<close> spread into an array: the distinct elements, in order of first occurrence.\<close>

fun set_spread :: "'a list \<Rightarrow> 'a list \<Rightarrow> 'a list" where
  "set_spread seen [] = []"
| "set_spread seen (x # xs) =
     (if x \<in> set seen then set_spread seen xs else x # set_spread (x # seen) xs)"

datatype error = NetworkFailure | TypeError

text \<open>\<open>Promise.all\<close> over settled requests: the first rejection, or all the values.\<close>

fun Promise_all :: "(error + 'a) list \<Rightarrow> error + 'a list" where
  "Promise_all [] = Inr []"
| "Promise_all (Inl e # ps) = Inl e"
| "Promise_all (Inr x # ps) =
     (case Promise_all ps of Inl e \<Rightarrow> Inl e | Inr xs \<Rightarrow> Inr (x # xs))"

section \<open>helpers: reference ranges\<close>

datatype OBSERVATION_INTERPRETATION =
  NORMAL | HIGH | CRITICALLY_HIGH | OFF_SCALE_HIGH | LOW | CRITICALLY_LOW | OFF_SCALE_LOW

text \<open>
  Modelled from the spec: the type declarations of \<open>./types\<close> (\<open>ObsMetaInfo\<close>,
  \<open>ObsRecord\<close>, \<open>ConceptRecord\<close>, \<open>PatientData\<close>) are not among the sources. The
  records of this theory have the fields that the code reads and writes, which are
  those of the data model of the specification.

  \<open>ObsMetaInfo\<close>: a bound that is \<open>null\<close> or \<open>undefined\<close> is \<open>None\<close>; numbers are reals.
  The field \<open>normal_range\<close> holds the two numbers that the source interpolates into the
  text \<open>range\<close>; the closure \<open>meta.assessValue\<close> is the function \<open>assessValue meta\<close>.
\<close>

record ObsMetaInfo =
  hiAbsolute :: "real option"
  hiCritical :: "real option"
  hiNormal :: "real option"
  lowAbsolute :: "real option"
  lowCritical :: "real option"
  lowNormal :: "real option"
  units :: "string option"
  datatype_display :: string
  normal_range :: "(real \<times> real) option"

definition exist :: "'a option list \<Rightarrow> bool" where
  "exist args = list_all (\<lambda>y. y \<noteq> None) args"

definition assessValue :: "ObsMetaInfo \<Rightarrow> real \<Rightarrow> OBSERVATION_INTERPRETATION" where
  "assessValue meta v =
     (if exist [hiAbsolute meta] \<and> v > the (hiAbsolute meta) then OFF_SCALE_HIGH
      else if exist [hiCritical meta] \<and> v > the (hiCritical meta) then CRITICALLY_HIGH
      else if exist [hiNormal meta] \<and> v > the (hiNormal meta) then HIGH
      else if exist [lowAbsolute meta] \<and> v < the (lowAbsolute meta) then OFF_SCALE_LOW
      else if exist [lowCritical meta] \<and> v < the (lowCritical meta) then CRITICALLY_LOW
      else if exist [lowNormal meta] \<and> v < the (lowNormal meta) then LOW
      else NORMAL)"

text \<open>
  The range assessor as the specification words it: the six bounds in a fixed order, each
  with its direction and its category; a missing bound matches nothing; the first bound
  that matches decides, and without a match the value is normal.
\<close>

datatype direction = Above | Below

definition bound_order ::
  "ObsMetaInfo \<Rightarrow> (real option \<times> direction \<times> OBSERVATION_INTERPRETATION) list" where
  "bound_order meta =
     [(hiAbsolute meta, Above, OFF_SCALE_HIGH),
      (hiCritical meta, Above, CRITICALLY_HIGH),
      (hiNormal meta, Above, HIGH),
      (lowAbsolute meta, Below, OFF_SCALE_LOW),
      (lowCritical meta, Below, CRITICALLY_LOW),
      (lowNormal meta, Below, LOW)]"

fun bound_matches :: "real \<Rightarrow> real option \<times> direction \<times> OBSERVATION_INTERPRETATION \<Rightarrow> bool" where
  "bound_matches v (None, d, c) = False"
| "bound_matches v (Some b, Above, c) = (v > b)"
| "bound_matches v (Some b, Below, c) = (v < b)"

definition first_matching_bound :: "ObsMetaInfo \<Rightarrow> real \<Rightarrow> OBSERVATION_INTERPRETATION" where
  "first_matching_bound meta v =
     (case find (bound_matches v) (bound_order meta) of
        None \<Rightarrow> NORMAL
      | Some (b, d, c) \<Rightarrow> c)"

section \<open>helpers: the freshness cache\<close>

text \<open>
  \<open>patientResultsDataCache\<close> maps a patient to \<open>[data, creation time, indicator]\<close>. The
  clock value \<open>Date.now()\<close> is passed in. \<open>Array.prototype.sort\<close> is stable; its comparator
  \<open>dateB - dateA\<close> orders by creation time, newest first.
\<close>

type_synonym 'd cache = "(string \<times> ('d \<times> int \<times> string)) list"

definition addUserDataToCache ::
  "'d cache \<Rightarrow> int \<Rightarrow> string \<Rightarrow> 'd \<Rightarrow> string \<Rightarrow> 'd cache" where
  "addUserDataToCache cache now patientUuid data indicator =
     (let cache1 = obj_set cache patientUuid (data, now, indicator);
          currentStateEntries = cache1
      in if length currentStateEntries > 3
         then fromEntries
                (take 3 (sort_key (\<lambda>(k, (d, date, i)). - date) currentStateEntries))
         else cache1)"

text \<open>
  A page of the remote search (a FHIR bundle): the total count and the resources of the
  page; \<open>entry\<close> is \<open>None\<close> when the bundle has no \<open>entry\<close> field. The remote search is a
  function of the patient, the page size \<open>_count\<close> and the offset \<open>_getpagesoffset\<close>.
\<close>

record 'r Bundle =
  total :: nat
  entry :: "'r list option"

type_synonym 'r fhir = "string \<Rightarrow> nat \<Rightarrow> nat \<Rightarrow> error + 'r Bundle"

definition PAGE_SIZE :: nat where
  "PAGE_SIZE = 100"

definition CHUNK_PREFETCH_COUNT :: nat where
  "CHUNK_PREFETCH_COUNT = 6"

text \<open>
  The generator \<open>fhirObservationRequests\<close> is its counter \<open>offsetCounter\<close>; each \<open>next()\<close>
  issues the request for the offset \<open>offsetCounter * PAGE_SIZE\<close> and increments the counter.
  \<open>retrieveFromIterator\<close> takes \<open>length\<close> requests from it: it returns their outcomes, the
  offsets requested, and the generator afterwards.
\<close>

definition retrieveFromIterator ::
  "(nat \<Rightarrow> error + 'r Bundle) \<Rightarrow> nat \<Rightarrow> nat \<Rightarrow> (error + 'r Bundle) list \<times> nat list \<times> nat" where
  "retrieveFromIterator request offsetCounter len =
     (let offsets = map (\<lambda>k. k * PAGE_SIZE) [offsetCounter ..< offsetCounter + len]
      in (map request offsets, offsets, offsetCounter + len))"

definition getLatestObsUuid ::
  "'r fhir \<Rightarrow> ('r \<Rightarrow> string) \<Rightarrow> string \<Rightarrow> error + string option" where
  "getLatestObsUuid fhir res_id patientUuid =
     (case fhir patientUuid 1 0 of
        Inl e \<Rightarrow> Inl e
      | Inr bundle \<Rightarrow>
          (case entry bundle of
             None \<Rightarrow> Inr None
           | Some [] \<Rightarrow> Inr None
           | Some (r # rs) \<Rightarrow> Inr (Some (res_id r))))"

definition getUserDataFromCache ::
  "'r fhir \<Rightarrow> ('r \<Rightarrow> string) \<Rightarrow> 'd cache \<Rightarrow> string \<Rightarrow> error + 'd option" where
  "getUserDataFromCache fhir res_id cache patientUuid =
     (case obj_get cache patientUuid of
        None \<Rightarrow> Inr None
      | Some (data, date, indicator) \<Rightarrow>
          (case getLatestObsUuid fhir res_id patientUuid of
             Inl e \<Rightarrow> Inl e
           | Inr latest \<Rightarrow> if latest = Some indicator then Inr (Some data) else Inr None))"

section \<open>helpers: the page fetcher\<close>

definition ceil_div :: "nat \<Rightarrow> nat \<Rightarrow> nat" where
  "ceil_div n d = (n + d - 1) div d"

text \<open>
  \<open>loadObsEntries\<close> returns the flattened entries (or the failure) and the offsets of all
  page requests it issued. Reading \<open>res.entry.map\<close> of a bundle without \<open>entry\<close> field is a
  type error.
\<close>

fun flatMap_entry :: "'r Bundle list \<Rightarrow> error + 'r list" where
  "flatMap_entry [] = Inr []"
| "flatMap_entry (b # bs) =
     (case entry b of
        None \<Rightarrow> Inl TypeError
      | Some rs \<Rightarrow> (case flatMap_entry bs of Inl e \<Rightarrow> Inl e | Inr rest \<Rightarrow> Inr (rs @ rest)))"

definition loadObsEntries :: "'r fhir \<Rightarrow> string \<Rightarrow> (error + 'r list) \<times> nat list" where
  "loadObsEntries fhir patientUuid =
     (let request = fhir patientUuid PAGE_SIZE;
          (promises, issued, counter) = retrieveFromIterator request 0 CHUNK_PREFETCH_COUNT
      in case Promise_all promises of
           Inl e \<Rightarrow> (Inl e, issued)
         | Inr [] \<Rightarrow> (Inl TypeError, issued)
         | Inr (first # others) \<Rightarrow>
             (let responses = first # others;
                  total = total first
              in if total > CHUNK_PREFETCH_COUNT * PAGE_SIZE
                 then
                   (let missingRequestsCount = ceil_div total PAGE_SIZE - CHUNK_PREFETCH_COUNT;
                        (promises2, issued2, counter2) =
                           retrieveFromIterator request counter missingRequestsCount
                    in case Promise_all promises2 of
                         Inl e \<Rightarrow> (Inl e, issued @ issued2)
                       | Inr responses2 \<Rightarrow>
                           (flatMap_entry
                              (take (ceil_div total PAGE_SIZE) (responses @ responses2)),
                            issued @ issued2))
                 else (flatMap_entry (take (ceil_div total PAGE_SIZE) responses), issued)))"

text \<open>
  A remote that serves the list \<open>obs\<close> of a patient's observations page by page: every
  bundle carries the total, and the page at an offset within the list carries the (at
  most \<open>page_count\<close>) entries from that offset on; a page beyond the end has no \<open>entry\<close> field.
\<close>

definition paged_remote :: "'r list \<Rightarrow> 'r fhir" where
  "paged_remote obs patientUuid page_count offset =
     Inr \<lparr>total = length obs,
          entry = (if offset < length obs then Some (take page_count (drop offset obs))
                   else None)\<rparr>"

section \<open>Observations and concepts\<close>

text \<open>
  Modelled from the spec: \<open>ObsRecord\<close> and \<open>ConceptRecord\<close> of \<open>./types\<close>, from the
  fields that the code uses.
  An observation as fetched: \<open>code\<close> is the concept identifier read by
  \<open>getEntryConceptClassUuid\<close> (\<open>entry.code.coding[0].code\<close>), \<open>valueQuantity\<close> is the
  number inside the quantity wrapper, \<open>hasMember\<close> lists the \<open>reference\<close> strings of the
  declared members. Reconstruction mutates the same object: it sets \<open>conceptClass\<close>,
  \<open>meta\<close>, \<open>value\<close>, \<open>name\<close> and \<open>members\<close>. The array \<open>members\<close> is shared with the
  back-pointer table, so the field holds the address of the array in a store.
\<close>

record FhirObs =
  obs_id :: string
  code :: string
  effectiveDateTime :: string
  valueQuantity :: "real option"
  hasMember :: "string list option"

record ObsRecord = FhirObs +
  conceptClass :: string
  meta :: "ObsMetaInfo option"
  obs_value :: "real option"
  name :: "string option"
  members :: "nat option"

record ConceptClass =
  class_name :: string
  class_display :: string

record ConceptRecord =
  uuid :: string
  display :: string
  concept_class :: ConceptClass
  c_hiAbsolute :: "real option"
  c_hiCritical :: "real option"
  c_hiNormal :: "real option"
  c_lowAbsolute :: "real option"
  c_lowCritical :: "real option"
  c_lowNormal :: "real option"
  c_units :: "string option"
  c_datatype_display :: string

definition getEntryConceptClassUuid :: "'a FhirObs_scheme \<Rightarrow> string" where
  "getEntryConceptClassUuid e = code e"

definition extractMetaInformation :: "ConceptRecord list \<Rightarrow> (string \<times> ObsMetaInfo) list" where
  "extractMetaInformation concepts =
     fromEntries
       (map (\<lambda>c. (uuid c,
                  \<lparr>hiAbsolute = c_hiAbsolute c, hiCritical = c_hiCritical c,
                   hiNormal = c_hiNormal c, lowAbsolute = c_lowAbsolute c,
                   lowCritical = c_lowCritical c, lowNormal = c_lowNormal c,
                   units = c_units c, datatype_display = c_datatype_display c,
                   normal_range =
                     (if exist [c_hiNormal c, c_lowNormal c]
                      then Some (the (c_lowNormal c), the (c_hiNormal c)) else None)\<rparr>))
            concepts)"

text \<open>
  \<open>loadPresentConcepts\<close>: one request per distinct concept identifier, in order of first
  occurrence; \<open>conceptCache\<close> memoises the request (its outcome, also a failed one).
\<close>

type_synonym conceptCache = "string \<Rightarrow> (error + ConceptRecord) option"

fun concept_requests ::
  "(string \<Rightarrow> error + ConceptRecord) \<Rightarrow> conceptCache \<Rightarrow> string list
     \<Rightarrow> (error + ConceptRecord) list \<times> conceptCache" where
  "concept_requests fetch_concept cc [] = ([], cc)"
| "concept_requests fetch_concept cc (u # us) =
     (case cc u of
        Some p \<Rightarrow>
          (let (ps, cc') = concept_requests fetch_concept cc us in (p # ps, cc'))
      | None \<Rightarrow>
          (let p = fetch_concept u;
               (ps, cc') = concept_requests fetch_concept (cc(u \<mapsto> p)) us
           in (p # ps, cc')))"

definition loadPresentConcepts ::
  "(string \<Rightarrow> error + ConceptRecord) \<Rightarrow> conceptCache \<Rightarrow> 'a FhirObs_scheme list
     \<Rightarrow> (error + ConceptRecord list) \<times> conceptCache" where
  "loadPresentConcepts fetch_concept cc entries =
     (let (ps, cc') =
        concept_requests fetch_concept cc (set_spread [] (map getEntryConceptClassUuid entries))
      in (Promise_all ps, cc'))"

section \<open>loadPatientData: reconstruction\<close>

text \<open>\<open>reference.split("/")[1]\<close>, used as an object key: a missing part is the key \<open>undefined\<close>.\<close>

fun split_on :: "char \<Rightarrow> string \<Rightarrow> string list" where
  "split_on sep [] = [[]]"
| "split_on sep (c # cs) =
     (if c = sep then [] # split_on sep cs
      else (case split_on sep cs of
              [] \<Rightarrow> [[c]]
            | part # parts \<Rightarrow> (c # part) # parts))"

definition member_key :: "string \<Rightarrow> string" where
  "member_key reference =
     (case split_on (CHR ''/'') reference of
        a # b # rest \<Rightarrow> b
      | _ \<Rightarrow> ''undefined'')"

text \<open>
  The mutable state of one reconstruction: the groups \<open>obsByClass\<close>, the list
  \<open>singeEntries\<close>, the back-pointer table \<open>memberRefs\<close> (observation identifier to member
  array and index) and the store of member arrays; a new array gets the next address.
\<close>

record recon =
  obsByClass :: "(string \<times> ObsRecord list) list"
  singeEntries :: "ObsRecord list"
  memberRefs :: "(string \<times> nat \<times> nat) list"
  store :: "ObsRecord option list list"

text \<open>
  \<open>obsByClass[k].push(v)\<close>. The key is always there: the groups are created for all test
  concepts, and only entries of test concepts are pushed.
\<close>

definition obj_push :: "('k \<times> 'v list) list \<Rightarrow> 'k \<Rightarrow> 'v \<Rightarrow> ('k \<times> 'v list) list" where
  "obj_push obj k v = map (\<lambda>(k', vs). if k' = k then (k', vs @ [v]) else (k', vs)) obj"

definition parseSingleObsData ::
  "(string \<times> string) list \<Rightarrow> (string \<times> ObsMetaInfo) list \<Rightarrow> recon \<Rightarrow> FhirObs
     \<Rightarrow> ObsRecord \<times> recon" where
  "parseSingleObsData testConceptNameMap metaInfomation st e =
     (let cc = getEntryConceptClassUuid e;
          parsed = \<lparr>obs_id = obs_id e, code = code e, effectiveDateTime = effectiveDateTime e,
                    valueQuantity = None, hasMember = hasMember e,
                    conceptClass = cc, meta = None, obs_value = valueQuantity e,
                    name = obj_get testConceptNameMap cc, members = None\<rparr>
      in case hasMember e of
           Some refs \<Rightarrow>
             (let a = length (store st)
              in (parsed\<lparr>members := Some a\<rparr>,
                  st\<lparr>store := store st @ [new_Array (length refs)],
                     memberRefs :=
                       foldl (\<lambda>mr (memb, i). obj_set mr (member_key memb) (a, i))
                         (memberRefs st) (zip refs [0 ..< length refs])\<rparr>))
         | None \<Rightarrow> (parsed\<lparr>meta := obj_get metaInfomation cc\<rparr>, st))"

text \<open>The first loop, \<open>entries.forEach\<close>.\<close>

fun entries_forEach ::
  "string list \<Rightarrow> (string \<times> string) list \<Rightarrow> (string \<times> ObsMetaInfo) list \<Rightarrow> recon
     \<Rightarrow> FhirObs list \<Rightarrow> recon" where
  "entries_forEach testConceptUuids nameMap metaInfo st [] = st"
| "entries_forEach testConceptUuids nameMap metaInfo st (e # es) =
     (if getEntryConceptClassUuid e \<notin> set testConceptUuids
      then entries_forEach testConceptUuids nameMap metaInfo st es
      else
        (let (ent, st1) = parseSingleObsData nameMap metaInfo st e
         in if members ent \<noteq> None
            then entries_forEach testConceptUuids nameMap metaInfo
                   (st1\<lparr>obsByClass := obj_push (obsByClass st1) (conceptClass ent) ent\<rparr>) es
            else entries_forEach testConceptUuids nameMap metaInfo
                   (st1\<lparr>singeEntries := singeEntries st1 @ [ent]\<rparr>) es))"

text \<open>The second loop, \<open>singeEntries.forEach\<close>.\<close>

fun singeEntries_forEach :: "recon \<Rightarrow> ObsRecord list \<Rightarrow> recon" where
  "singeEntries_forEach st [] = st"
| "singeEntries_forEach st (ent # es) =
     (case obj_get (memberRefs st) (obs_id ent) of
        Some (a, i) \<Rightarrow>
          singeEntries_forEach
            (st\<lparr>store := (store st)[a := array_set (store st ! a) i ent]\<rparr>) es
      | None \<Rightarrow>
          singeEntries_forEach
            (st\<lparr>obsByClass := obj_push (obsByClass st) (conceptClass ent) ent\<rparr>) es)"

text \<open>
  Modelled from the spec: \<open>PatientData\<close> of \<open>./types\<close>, from the object that
  \<open>loadPatientData\<close> builds.
  The aggregate as a value: an entry together with the member array its \<open>members\<close> field
  points at (the array stands for the address, which is a name local to one
  reconstruction). \<open>Date.parse\<close> is a parameter (timestamps that parse to a number).
  The comparator \<open>Date.parse(ent2) - Date.parse(ent1)\<close> of the stable sort orders
  by timestamp, newest first.
\<close>

record Obs =
  item :: ObsRecord
  slots :: "ObsRecord option list option"

record PanelData =
  entries :: "Obs list"
  panel_type :: string
  panel_uuid :: string

type_synonym PatientData = "(string \<times> PanelData) list"

definition deref :: "ObsRecord option list list \<Rightarrow> ObsRecord \<Rightarrow> Obs" where
  "deref st e = \<lparr>item = e\<lparr>members := None\<rparr>, slots = map_option (\<lambda>a. st ! a) (members e)\<rparr>"

definition by_date_desc :: "(string \<Rightarrow> int) \<Rightarrow> ObsRecord list \<Rightarrow> ObsRecord list" where
  "by_date_desc Date_parse val = sort_key (\<lambda>ent. - Date_parse (effectiveDateTime ent)) val"

definition test_concepts :: "ConceptRecord list \<Rightarrow> ConceptRecord list" where
  "test_concepts allConcepts =
     filter (\<lambda>x. class_name (concept_class x) = ''Test'' \<or> class_name (concept_class x) = ''LabSet'')
       allConcepts"

definition reconstruct_state :: "ConceptRecord list \<Rightarrow> FhirObs list \<Rightarrow> recon" where
  "reconstruct_state allConcepts raw =
     (let testConcepts = test_concepts allConcepts;
          testConceptUuids = map uuid testConcepts;
          testConceptNameMap = fromEntries (map (\<lambda>c. (uuid c, display c)) testConcepts);
          metaInfomation = extractMetaInformation testConcepts;
          st0 = \<lparr>obsByClass = fromEntries (map (\<lambda>x. (x, [])) testConceptUuids),
                 singeEntries = [], memberRefs = [], store = []\<rparr>;
          st1 = entries_forEach testConceptUuids testConceptNameMap metaInfomation st0 raw
      in singeEntries_forEach st1 (singeEntries st1))"

definition sortedObs_of ::
  "(string \<Rightarrow> int) \<Rightarrow> ConceptRecord list \<Rightarrow> recon \<Rightarrow> PatientData" where
  "sortedObs_of Date_parse testConcepts st =
     fromEntries
       (map (\<lambda>(u, val).
               (let c = the (find (\<lambda>x. uuid x = u) testConcepts)
                in (display c,
                    \<lparr>entries = map (deref (store st)) (by_date_desc Date_parse val),
                     panel_type = class_display (concept_class c),
                     panel_uuid = u\<rparr>)))
          (filter (\<lambda>x. snd x \<noteq> []) (obsByClass st)))"

definition reconstruct ::
  "(string \<Rightarrow> int) \<Rightarrow> ConceptRecord list \<Rightarrow> FhirObs list \<Rightarrow> PatientData" where
  "reconstruct Date_parse allConcepts raw =
     sortedObs_of Date_parse (test_concepts allConcepts) (reconstruct_state allConcepts raw)"

text \<open>
  \<open>loadPatientData\<close> with the remote services, the clock and the two process-wide caches
  made explicit. The freshness indicator is \<open>entries[0].id\<close>; reading it from an empty
  list is a type error, raised before \<open>addUserDataToCache\<close> is entered.
\<close>

record world =
  fetch_observations :: "FhirObs fhir"
  fetch_concept :: "string \<Rightarrow> error + ConceptRecord"
  Date_parse :: "string \<Rightarrow> int"
  Date_now :: int

record caches =
  patientResultsDataCache :: "PatientData cache"
  conceptCache :: conceptCache

definition loadPatientData ::
  "world \<Rightarrow> caches \<Rightarrow> string \<Rightarrow> (error + PatientData) \<times> caches" where
  "loadPatientData w st patientUuid =
     (case getUserDataFromCache (fetch_observations w) obs_id (patientResultsDataCache st)
             patientUuid of
        Inl e \<Rightarrow> (Inl e, st)
      | Inr (Some cachedPatientData) \<Rightarrow> (Inr cachedPatientData, st)
      | Inr None \<Rightarrow>
          (case fst (loadObsEntries (fetch_observations w) patientUuid) of
             Inl e \<Rightarrow> (Inl e, st)
           | Inr raw \<Rightarrow>
               (let (loaded, cc') = loadPresentConcepts (fetch_concept w) (conceptCache st) raw;
                    st1 = st\<lparr>conceptCache := cc'\<rparr>
                in case loaded of
                     Inl e \<Rightarrow> (Inl e, st1)
                   | Inr allConcepts \<Rightarrow>
                       (let sortedObs = reconstruct (Date_parse w) allConcepts raw
                        in case raw of
                             [] \<Rightarrow> (Inl TypeError, st1)
                           | first # others \<Rightarrow>
                               (Inr sortedObs,
                                st1\<lparr>patientResultsDataCache :=
                                      addUserDataToCache (patientResultsDataCache st1)
                                        (Date_now w) patientUuid sortedObs (obs_id first)\<rparr>)))))"

section \<open>Timeline: the pivot\<close>

text \<open>
  \<open>parseEntries\<close>: \<open>forEach\<close> over a member array skips its holes; \<open>members.forEach\<close> on an
  entry without member array is a type error. A row is an array with holes, copied by the
  spread at the end (holes become \<open>undefined\<close>, both \<open>None\<close> here).
\<close>

definition row_key :: "ObsRecord \<Rightarrow> string" where
  "row_key member = (case name member of None \<Rightarrow> ''undefined'' | Some n \<Rightarrow> n)"

definition members_forEach ::
  "nat \<Rightarrow> (string \<times> ObsRecord option list) list \<Rightarrow> ObsRecord option list
     \<Rightarrow> (string \<times> ObsRecord option list) list" where
  "members_forEach index rows ms =
     foldl (\<lambda>rows slot.
              case slot of
                None \<Rightarrow> rows
              | Some member \<Rightarrow>
                  (let row = (case obj_get rows (row_key member) of None \<Rightarrow> [] | Some r \<Rightarrow> r)
                   in obj_set rows (row_key member) (array_set row index member)))
       rows ms"

fun parseEntries_from ::
  "nat \<Rightarrow> (string \<times> ObsRecord option list) list \<Rightarrow> Obs list
     \<Rightarrow> error + (string \<times> ObsRecord option list) list" where
  "parseEntries_from index rows [] = Inr rows"
| "parseEntries_from index rows (e # es) =
     (case slots e of
        None \<Rightarrow> Inl TypeError
      | Some ms \<Rightarrow> parseEntries_from (Suc index) (members_forEach index rows ms) es)"

definition parseEntries :: "Obs list \<Rightarrow> error + (string \<times> ObsRecord option list) list" where
  "parseEntries es = parseEntries_from 0 [] es"

text \<open>
  For stating what a row holds: the member of an entry that is recorded under a row key
  (the last one, should several members of the entry share the key), and an array cut
  after its last filled slot.
\<close>

definition member_named :: "string \<Rightarrow> Obs \<Rightarrow> ObsRecord option" where
  "member_named n e =
     (case slots e of
        None \<Rightarrow> None
      | Some ms \<Rightarrow> find (\<lambda>m. row_key m = n) (rev (concat (map (case_option [] (\<lambda>m. [m])) ms))))"

definition trim_holes :: "'a option list \<Rightarrow> 'a option list" where
  "trim_holes xs = rev (dropWhile (\<lambda>c. c = None) (rev xs))"

text \<open>
  The row of a key over an entry list, as the pivot builds it: no row when no entry has
  a member under the key, otherwise the column of that member over the entries, cut after
  the last entry that has one.
\<close>

definition row_of :: "string \<Rightarrow> Obs list \<Rightarrow> ObsRecord option list option" where
  "row_of n es =
     (if list_all (\<lambda>e. member_named n e = None) es then None
      else Some (trim_holes (map (member_named n) es)))"

section \<open>Describing the state of a reconstruction\<close>

text \<open>
  Auxiliary functions for the proofs. An entry is recognised when its concept is a test
  concept. \<open>parsed_base\<close> is the entry as \<open>parseSingleObsData\<close> leaves it, before the
  panel or single-test branch sets \<open>members\<close> or \<open>meta\<close>. For the recognised panels in
  raw order, the first of which gets the address \<open>a\<close>: \<open>panel_refs\<close> lists the
  back-pointers in the order in which they are written, and \<open>addr_panels\<close> the parsed
  panels with their addresses.
\<close>

definition recognised :: "string list \<Rightarrow> FhirObs \<Rightarrow> bool" where
  "recognised testConceptUuids e = (getEntryConceptClassUuid e \<in> set testConceptUuids)"

definition is_panel :: "FhirObs \<Rightarrow> bool" where
  "is_panel e = (hasMember e \<noteq> None)"

definition parsed_base :: "(string \<times> string) list \<Rightarrow> FhirObs \<Rightarrow> ObsRecord" where
  "parsed_base testConceptNameMap e =
     \<lparr>obs_id = obs_id e, code = code e, effectiveDateTime = effectiveDateTime e,
      valueQuantity = None, hasMember = hasMember e,
      conceptClass = getEntryConceptClassUuid e, meta = None, obs_value = valueQuantity e,
      name = obj_get testConceptNameMap (getEntryConceptClassUuid e), members = None\<rparr>"

definition parsed_single ::
  "(string \<times> string) list \<Rightarrow> (string \<times> ObsMetaInfo) list \<Rightarrow> FhirObs \<Rightarrow> ObsRecord" where
  "parsed_single testConceptNameMap metaInfomation e =
     (parsed_base testConceptNameMap e)
       \<lparr>meta := obj_get metaInfomation (getEntryConceptClassUuid e)\<rparr>"

definition slot_keys :: "FhirObs \<Rightarrow> string list" where
  "slot_keys p = (case hasMember p of None \<Rightarrow> [] | Some refs \<Rightarrow> map member_key refs)"

fun panel_refs :: "nat \<Rightarrow> FhirObs list \<Rightarrow> (string \<times> nat \<times> nat) list" where
  "panel_refs a [] = []"
| "panel_refs a (p # ps) =
     map (\<lambda>(k, i). (k, (a, i))) (zip (slot_keys p) [0 ..< length (slot_keys p)])
     @ panel_refs (Suc a) ps"

fun addr_panels :: "(string \<times> string) list \<Rightarrow> nat \<Rightarrow> FhirObs list \<Rightarrow> ObsRecord list" where
  "addr_panels testConceptNameMap a [] = []"
| "addr_panels testConceptNameMap a (p # ps) =
     (parsed_base testConceptNameMap p)\<lparr>members := Some a\<rparr>
     # addr_panels testConceptNameMap (Suc a) ps"

definition raw_panels :: "string list \<Rightarrow> FhirObs list \<Rightarrow> FhirObs list" where
  "raw_panels testConceptUuids raw = filter is_panel (filter (recognised testConceptUuids) raw)"

definition raw_singles :: "string list \<Rightarrow> FhirObs list \<Rightarrow> FhirObs list" where
  "raw_singles testConceptUuids raw =
     filter (\<lambda>e. \<not> is_panel e) (filter (recognised testConceptUuids) raw)"

text \<open>
  The store after the second loop: every single entry with a back-pointer is written into
  its slot, in order.
\<close>

fun fill ::
  "(string \<times> nat \<times> nat) list \<Rightarrow> ObsRecord option list list \<Rightarrow> ObsRecord list
     \<Rightarrow> ObsRecord option list list" where
  "fill mr h [] = h"
| "fill mr h (s # ss) =
     (case obj_get mr (obs_id s) of
        Some (a, i) \<Rightarrow> fill mr (h[a := array_set (h ! a) i s]) ss
      | None \<Rightarrow> fill mr h ss)"

text \<open>
  The aggregate described from the raw entries as a collection, for lists in which
  identifiers are unique: a single entry is looked up by its identifier; a panel is
  resolved to its parsed entry with the members found for its declared keys; the entries
  that are put into groups are the panels and the single entries that no panel declares.
\<close>

definition by_id :: "ObsRecord list \<Rightarrow> string \<Rightarrow> ObsRecord option" where
  "by_id singles k = find (\<lambda>s. obs_id s = k) singles"

definition declared_keys :: "string list \<Rightarrow> FhirObs list \<Rightarrow> string set" where
  "declared_keys testConceptUuids raw =
     set (concat (map slot_keys (raw_panels testConceptUuids raw)))"

definition top_level :: "string list \<Rightarrow> FhirObs list \<Rightarrow> FhirObs list" where
  "top_level testConceptUuids raw =
     filter (\<lambda>e. is_panel e \<or> obs_id e \<notin> declared_keys testConceptUuids raw)
       (filter (recognised testConceptUuids) raw)"

definition resolved_entry ::
  "(string \<times> string) list \<Rightarrow> (string \<times> ObsMetaInfo) list \<Rightarrow> ObsRecord list \<Rightarrow> FhirObs \<Rightarrow> Obs" where
  "resolved_entry testConceptNameMap metaInfomation singles e =
     (if is_panel e
      then \<lparr>item = parsed_base testConceptNameMap e,
            slots = Some (map (by_id singles) (slot_keys e))\<rparr>
      else \<lparr>item = parsed_single testConceptNameMap metaInfomation e, slots = None\<rparr>)"

text \<open>Every back-pointer points at a slot that exists.\<close>

definition inrange :: "(string \<times> nat \<times> nat) list \<Rightarrow> ObsRecord option list list \<Rightarrow> bool" where
  "inrange mr h = (\<forall>k a i. obj_get mr k = Some (a, i) \<longrightarrow> a < length h \<and> i < length (h ! a))"

section \<open>Example data\<close>

text \<open>A haemoglobin result and a blood-count panel that declares it as its member.\<close>

definition ex_hgb :: ObsRecord where
  "ex_hgb = \<lparr>obs_id = ''b'', code = ''singleCat'', effectiveDateTime = ''2024-01-05T08:00'',
      valueQuantity = None, hasMember = None, conceptClass = ''singleCat'', meta = None,
      obs_value = Some 7.2, name = Some ''Hgb'', members = None\<rparr>"

definition ex_panel :: "string \<Rightarrow> string \<Rightarrow> ObsRecord" where
  "ex_panel i t = \<lparr>obs_id = i, code = ''panelCat'', effectiveDateTime = t,
      valueQuantity = None, hasMember = Some [''Observation/b''], conceptClass = ''panelCat'',
      meta = None, obs_value = None, name = Some ''CBC'', members = None\<rparr>"

text \<open>
  Two concepts, a clock reading of two timestamps, and raw observations: panels with
  their member references, and single haemoglobin results.
\<close>

definition ex_concept :: "string \<Rightarrow> string \<Rightarrow> string \<Rightarrow> ConceptRecord" where
  "ex_concept u d c =
     \<lparr>uuid = u, display = d, concept_class = \<lparr>class_name = c, class_display = c\<rparr>,
      c_hiAbsolute = None, c_hiCritical = None, c_hiNormal = None, c_lowAbsolute = None,
      c_lowCritical = None, c_lowNormal = None, c_units = None,
      c_datatype_display = ''Numeric''\<rparr>"

definition ex_concepts :: "ConceptRecord list" where
  "ex_concepts = [ex_concept ''panelCat'' ''CBC'' ''LabSet'', ex_concept ''singleCat'' ''Hgb'' ''Test'']"

definition ex_Date_parse :: "string \<Rightarrow> int" where
  "ex_Date_parse s =
     (if s = ''2024-01-05T08:00'' then 1704441600000
      else if s = ''2024-01-05T14:30'' then 1704465000000
      else 0)"

definition ex_raw_panel :: "string \<Rightarrow> string \<Rightarrow> string list \<Rightarrow> FhirObs" where
  "ex_raw_panel i t refs =
     \<lparr>obs_id = i, code = ''panelCat'', effectiveDateTime = t, valueQuantity = None,
      hasMember = Some refs\<rparr>"

definition ex_raw_single :: "string \<Rightarrow> string \<Rightarrow> FhirObs" where
  "ex_raw_single i t =
     \<lparr>obs_id = i, code = ''singleCat'', effectiveDateTime = t, valueQuantity = Some 7,
      hasMember = None\<rparr>"

section \<open>Properties of the JavaScript containers\<close>

lemma map_fst_obj_set:
  "map fst (obj_set obj k v) =
     (if k \<in> set (map fst obj) then map fst obj else map fst obj @ [k])"
  by (induction obj) (auto split: if_splits)

lemma obj_set_distinct: "distinct (map fst obj) \<Longrightarrow> distinct (map fst (obj_set obj k v))"
  by (simp add: map_fst_obj_set)

lemma obj_set_fresh: "k \<notin> fst ` set obj \<Longrightarrow> obj_set obj k v = obj @ [(k, v)]"
  by (induction obj) auto

lemma foldl_obj_set_fresh:
  "distinct (map fst obj @ map fst kvs) \<Longrightarrow>
   foldl (\<lambda>obj (k, v). obj_set obj k v) obj kvs = obj @ kvs"
proof (induction kvs arbitrary: obj)
  case Nil
  then show ?case by simp
next
  case (Cons kv kvs)
  obtain k v where kv: "kv = (k, v)" by (cases kv)
  have "k \<notin> fst ` set obj" using Cons.prems kv by auto
  then have "obj_set obj k v = obj @ [(k, v)]" by (rule obj_set_fresh)
  then show ?case using Cons.prems Cons.IH[of "obj @ [(k, v)]"] kv by simp
qed

lemma fromEntries_distinct: "distinct (map fst kvs) \<Longrightarrow> fromEntries kvs = kvs"
  using foldl_obj_set_fresh[of "[]" kvs] by (simp add: fromEntries_def)

lemma Promise_all_Inr: "Promise_all (map (\<lambda>x. Inr (f x)) xs) = Inr (map f xs)"
  by (induction xs) simp_all

lemma Promise_all_length: "Promise_all ps = Inr xs \<Longrightarrow> length xs = length ps"
proof (induction ps arbitrary: xs)
  case Nil
  then show ?case by simp
next
  case (Cons p ps)
  then show ?case by (cases p) (auto split: sum.splits)
qed

section \<open>The range assessor\<close>

lemma exist_single [simp]: "exist [y] = (y \<noteq> None)"
  by (simp add: exist_def)

lemma assessValue_first_match: "assessValue m v = first_matching_bound m v"
  by (cases "hiAbsolute m"; cases "hiCritical m"; cases "hiNormal m";
      cases "lowAbsolute m"; cases "lowCritical m"; cases "lowNormal m")
     (simp_all add: assessValue_def first_matching_bound_def bound_order_def)

text \<open>
  Claim C3. \<open>assessValue\<close> checks the bounds in the order hiAbsolute, hiCritical, hiNormal,
  lowAbsolute, lowCritical, lowNormal with strict comparisons, skips a missing bound,
  returns the category of the first bound that matches and \<open>NORMAL\<close> when none does. A
  value equal to a bound is never put into that bound's category, and with
  hiAbsolute 100, hiCritical 90 and hiNormal 80 the value 95 is critically high.
\<close>

theorem assessValue_ordered_strict:
  "assessValue m v = first_matching_bound m v
   \<and> (hiAbsolute m = Some v \<longrightarrow> assessValue m v \<noteq> OFF_SCALE_HIGH)
   \<and> (hiCritical m = Some v \<longrightarrow> assessValue m v \<noteq> CRITICALLY_HIGH)
   \<and> (hiNormal m = Some v \<longrightarrow> assessValue m v \<noteq> HIGH)
   \<and> (lowAbsolute m = Some v \<longrightarrow> assessValue m v \<noteq> OFF_SCALE_LOW)
   \<and> (lowCritical m = Some v \<longrightarrow> assessValue m v \<noteq> CRITICALLY_LOW)
   \<and> (lowNormal m = Some v \<longrightarrow> assessValue m v \<noteq> LOW)
   \<and> assessValue (m\<lparr>hiAbsolute := Some 100, hiCritical := Some 90, hiNormal := Some 80\<rparr>) 95
       = CRITICALLY_HIGH"
proof -
  have "assessValue (m\<lparr>hiAbsolute := Some 100, hiCritical := Some 90, hiNormal := Some 80\<rparr>) 95
       = CRITICALLY_HIGH"
    by (simp add: assessValue_def)
  moreover have "hiAbsolute m = Some v \<longrightarrow> assessValue m v \<noteq> OFF_SCALE_HIGH"
    by (simp add: assessValue_def)
  moreover have "hiCritical m = Some v \<longrightarrow> assessValue m v \<noteq> CRITICALLY_HIGH"
    by (simp add: assessValue_def)
  moreover have "hiNormal m = Some v \<longrightarrow> assessValue m v \<noteq> HIGH"
    by (simp add: assessValue_def)
  moreover have "lowAbsolute m = Some v \<longrightarrow> assessValue m v \<noteq> OFF_SCALE_LOW"
    by (simp add: assessValue_def)
  moreover have "lowCritical m = Some v \<longrightarrow> assessValue m v \<noteq> CRITICALLY_LOW"
    by (simp add: assessValue_def)
  moreover have "lowNormal m = Some v \<longrightarrow> assessValue m v \<noteq> LOW"
    by (simp add: assessValue_def)
  ultimately show ?thesis
    using assessValue_first_match[of m v] by blast
qed

theorem assessValue_ordered_strict_witness:
  "hiAbsolute \<lparr>hiAbsolute = Some 5, hiCritical = Some 5, hiNormal = Some 5,
        lowAbsolute = Some 5, lowCritical = Some 5, lowNormal = Some 5, units = None,
        datatype_display = ''Numeric'', normal_range = Some (5, 5)\<rparr> = Some 5
   \<and> assessValue \<lparr>hiAbsolute = Some 5, hiCritical = Some 5, hiNormal = Some 5,
        lowAbsolute = Some 5, lowCritical = Some 5, lowNormal = Some 5, units = None,
        datatype_display = ''Numeric'', normal_range = Some (5, 5)\<rparr> 5 = NORMAL"
  using assessValue_ordered_strict
    [of "\<lparr>hiAbsolute = Some 5, hiCritical = Some 5, hiNormal = Some 5,
        lowAbsolute = Some 5, lowCritical = Some 5, lowNormal = Some 5, units = None,
        datatype_display = ''Numeric'', normal_range = Some (5, 5)\<rparr>" 5]
  by (simp add: first_matching_bound_def bound_order_def)

section \<open>The freshness cache\<close>

text \<open>
  Claim C5. \<open>getUserDataFromCache\<close> returns the stored aggregate exactly when the cache
  has an entry for the patient and the probe returns an identifier equal to the stored
  indicator; without an entry, and when the probe returns anything else (another
  identifier or none), it returns absent.
\<close>

theorem getUserDataFromCache_hit_iff:
  "(getUserDataFromCache fhir res_id cache p = Inr (Some d)
      \<longleftrightarrow> (\<exists>date ind. obj_get cache p = Some (d, date, ind)
                \<and> getLatestObsUuid fhir res_id p = Inr (Some ind)))
   \<and> (obj_get cache p = None \<longrightarrow> getUserDataFromCache fhir res_id cache p = Inr None)
   \<and> (\<forall>d' date ind latest.
         obj_get cache p = Some (d', date, ind)
         \<and> getLatestObsUuid fhir res_id p = Inr latest \<and> latest \<noteq> Some ind
         \<longrightarrow> getUserDataFromCache fhir res_id cache p = Inr None)"
  by (auto simp: getUserDataFromCache_def split: option.splits sum.splits)

theorem getUserDataFromCache_hit_iff_witness:
  "obj_get [(''patient-1'', (''aggregate'', 17, ''obs-123''))] ''patient-1''
     = Some (''aggregate'', 17, ''obs-123'')
   \<and> getLatestObsUuid (\<lambda>p c off. Inr \<lparr>total = 1, entry = Some [''obs-456'']\<rparr>) id ''patient-1''
     = Inr (Some ''obs-456'')
   \<and> getUserDataFromCache (\<lambda>p c off. Inr \<lparr>total = 1, entry = Some [''obs-456'']\<rparr>) id
        [(''patient-1'', (''aggregate'', 17, ''obs-123''))] ''patient-1'' = Inr None
   \<and> obj_get [(''patient-1'', (''aggregate'', 17, ''obs-123''))] ''patient-2'' = None
   \<and> getUserDataFromCache (\<lambda>p c off. Inr \<lparr>total = 1, entry = Some [''obs-456'']\<rparr>) id
        [(''patient-1'', (''aggregate'', 17, ''obs-123''))] ''patient-2'' = Inr None"
  using getUserDataFromCache_hit_iff
      [of "\<lambda>p c off. Inr \<lparr>total = 1, entry = Some [''obs-456'']\<rparr>" id
          "[(''patient-1'', (''aggregate'', 17, ''obs-123''))]" "''patient-1''" "''aggregate''"]
    getUserDataFromCache_hit_iff
      [of "\<lambda>p c off. Inr \<lparr>total = 1, entry = Some [''obs-456'']\<rparr>" id
          "[(''patient-1'', (''aggregate'', 17, ''obs-123''))]" "''patient-2''" "''aggregate''"]
  by (simp add: obj_get_def getLatestObsUuid_def)

lemma sorted_take_drop:
  assumes "sorted (map f ys)" "x \<in> set (take n ys)" "y \<in> set (drop n ys)"
  shows "f x \<le> f y"
proof -
  have "sorted (map f (take n ys) @ map f (drop n ys))"
    using assms(1) by (simp flip: map_append)
  then show ?thesis using assms(2,3) by (auto simp: sorted_append)
qed

lemma addUserDataToCache_evicts:
  fixes cache :: "'d cache" and now :: int and p :: string and d :: 'd and ind :: string
  assumes dk: "distinct (map fst cache)"
  defines "stored \<equiv> obj_set cache p (d, now, ind)"
  defines "after \<equiv> addUserDataToCache cache now p d ind"
  shows "(length stored \<le> 3 \<longrightarrow> after = stored) \<and>
         (length stored > 3 \<longrightarrow> length after = 3 \<and> set after \<subseteq> set stored \<and>
            (\<forall>kept \<in> set after. \<forall>gone \<in> set stored - set after.
                fst (snd (snd gone)) \<le> fst (snd (snd kept))))"
proof -
  let ?key = "\<lambda>(k, (d, date, i)). - date :: int"
  let ?ys = "sort_key ?key stored"
  have ds: "distinct (map fst stored)"
    unfolding stored_def using dk by (rule obj_set_distinct)
  have "distinct (map fst ?ys)"
    using ds by (simp add: distinct_map)
  then have dy: "distinct (map fst (take 3 ?ys))"
    by (simp add: take_map[symmetric])
  have eq: "length stored > 3 \<Longrightarrow> after = take 3 ?ys"
    unfolding after_def addUserDataToCache_def Let_def stored_def[symmetric]
    using fromEntries_distinct[OF dy] by simp
  have le: "length stored \<le> 3 \<Longrightarrow> after = stored"
    unfolding after_def addUserDataToCache_def Let_def stored_def[symmetric] by simp
  have gone: "set stored - set (take 3 ?ys) \<subseteq> set (drop 3 ?ys)"
  proof -
    have "set stored = set (take 3 ?ys) \<union> set (drop 3 ?ys)"
      by (metis append_take_drop_id set_append set_sort)
    then show ?thesis by auto
  qed
  have ord: "fst (snd (snd gone)) \<le> fst (snd (snd kept))"
    if k: "kept \<in> set (take 3 ?ys)" and g: "gone \<in> set (drop 3 ?ys)" for kept gone
  proof -
    have "?key kept \<le> ?key gone"
      using sorted_take_drop[OF sorted_sort_key k g] .
    then show ?thesis by (simp add: case_prod_beta)
  qed
  have sub: "set (take 3 ?ys) \<subseteq> set stored"
    using set_take_subset[of 3 ?ys] by simp
  show ?thesis
  proof (cases "length stored > 3")
    case True
    have "\<forall>kept \<in> set after. \<forall>gone \<in> set stored - set after.
                fst (snd (snd gone)) \<le> fst (snd (snd kept))"
      unfolding eq[OF True] using gone ord by blast
    then show ?thesis using True eq[OF True] sub by simp
  next
    case False
    then show ?thesis using le by simp
  qed
qed

lemma in_top:
  assumes d: "distinct xs" and e: "e \<in> set xs"
    and c: "card {x \<in> set xs. x \<noteq> e \<and> f x \<le> f e} < n"
  shows "e \<in> set (take n (sort_key f xs))"
proof -
  let ?ys = "sort_key f xs"
  let ?S = "{x \<in> set xs. x \<noteq> e \<and> f x \<le> f e}"
  have dy: "distinct ?ys" using d by simp
  have so: "sorted (map f ?ys)" by (rule sorted_sort_key)
  from e obtain j where j: "j < length ?ys" "?ys ! j = e"
    by (metis in_set_conv_nth set_sort)
  have img: "(\<lambda>i. ?ys ! i) ` {..<j} \<subseteq> ?S"
  proof
    fix x assume "x \<in> (\<lambda>i. ?ys ! i) ` {..<j}"
    then obtain i where i: "i < j" "x = ?ys ! i" by auto
    have "x \<in> set xs" using i j by (metis less_trans nth_mem set_sort)
    moreover have "x \<noteq> e" using i j dy by (metis less_trans nat_neq_iff nth_eq_iff_index_eq)
    moreover have "map f ?ys ! i \<le> map f ?ys ! j"
      using so i j by (intro sorted_nth_mono) simp_all
    then have "f x \<le> f e" using i j by simp
    ultimately show "x \<in> ?S" by simp
  qed
  have inj: "inj_on (\<lambda>i. ?ys ! i) {..<j}"
    using dy j by (auto simp: inj_on_def nth_eq_iff_index_eq)
  have "j = card ((\<lambda>i. ?ys ! i) ` {..<j})" using inj by (simp add: card_image)
  also have "\<dots> \<le> card ?S" using img by (intro card_mono) simp_all
  finally have "j < n" using c by simp
  then have "j < length (take n ?ys)" "take n ?ys ! j = e" using j by simp_all
  then show ?thesis by (metis nth_mem)
qed

lemma set_obj_set:
  "distinct (map fst obj) \<Longrightarrow> set (obj_set obj k v) = insert (k, v) {x \<in> set obj. fst x \<noteq> k}"
proof (induction obj)
  case Nil
  then show ?case by simp
next
  case (Cons kv obj)
  obtain k' v' where kv: "kv = (k', v')" by (cases kv)
  show ?case
  proof (cases "k' = k")
    case True
    have "\<And>x. x \<in> set obj \<Longrightarrow> fst x \<noteq> k" using Cons.prems kv True by auto
    then show ?thesis using kv True by auto
  next
    case False
    then show ?thesis using Cons kv by auto
  qed
qed


lemma addUserDataToCache_props:
  fixes cache :: "'d cache" and now :: int and p :: string and d :: 'd and ind :: string
  assumes dk: "distinct (map fst cache)"
  defines "stored \<equiv> obj_set cache p (d, now, ind)"
  defines "after \<equiv> addUserDataToCache cache now p d ind"
  shows "distinct (map fst after)" and "set after \<subseteq> set stored"
    and "length stored > 3 \<Longrightarrow> length after = 3"
    and "\<And>e. e \<in> set stored \<Longrightarrow>
            card {x \<in> set stored. x \<noteq> e \<and> fst (snd (snd e)) \<le> fst (snd (snd x))} < 3 \<Longrightarrow> e \<in> set after"
proof -
  let ?key = "\<lambda>(k, (d, date, i)). - date :: int"
  let ?ys = "sort_key ?key stored"
  have ds: "distinct (map fst stored)"
    unfolding stored_def using dk by (rule obj_set_distinct)
  have "distinct (map fst ?ys)"
    using ds by (simp add: distinct_map)
  then have dy: "distinct (map fst (take 3 ?ys))"
    by (simp add: take_map[symmetric])
  have eq: "length stored > 3 \<Longrightarrow> after = take 3 ?ys"
    unfolding after_def addUserDataToCache_def Let_def stored_def[symmetric]
    using fromEntries_distinct[OF dy] by simp
  have le: "\<not> length stored > 3 \<Longrightarrow> after = stored"
    unfolding after_def addUserDataToCache_def Let_def stored_def[symmetric] by simp
  show "distinct (map fst after)" using eq le dy ds by (cases "length stored > 3") simp_all
  show "set after \<subseteq> set stored"
    using eq le set_take_subset[of 3 ?ys] by (cases "length stored > 3") simp_all
  show "length stored > 3 \<Longrightarrow> length after = 3" using eq by simp
  show "e \<in> set after" if e: "e \<in> set stored"
     and c: "card {x \<in> set stored. x \<noteq> e \<and> fst (snd (snd e)) \<le> fst (snd (snd x))} < 3" for e
  proof (cases "length stored > 3")
    case True
    have k: "(?key x \<le> ?key e) = (fst (snd (snd e)) \<le> fst (snd (snd x)))"
      for x :: "string \<times> 'd \<times> int \<times> string"
      by (simp add: case_prod_beta)
    have "distinct stored" using ds by (simp add: distinct_map)
    then have "e \<in> set (take 3 ?ys)"
      using e c by (intro in_top) (simp_all add: k)
    then show ?thesis using eq[OF True] by simp
  next
    case False
    then show ?thesis using le e by simp
  qed
qed


lemma card_sub_pair: "A \<subseteq> {a, b} \<Longrightarrow> card A < 3"
proof -
  assume "A \<subseteq> {a, b}"
  then have "card A \<le> card {a, b}" by (intro card_mono) simp_all
  also have "\<dots> \<le> 2" by (simp add: card_insert_if)
  finally show ?thesis by simp
qed

lemma four_puts_after_older:
  fixes cache :: "'d cache"
  assumes dk: "distinct (map fst cache)"
    and old: "\<forall>x \<in> set cache. fst (snd (snd x)) < t1"
    and dist: "distinct [p1, p2, p3, p4]" and t: "t1 < t2" "t2 < t3" "t3 < t4"
  shows "set (addUserDataToCache
           (addUserDataToCache
              (addUserDataToCache (addUserDataToCache cache t1 p1 d1 i1) t2 p2 d2 i2)
              t3 p3 d3 i3)
           t4 p4 d4 i4)
         = {(p2, (d2, t2, i2)), (p3, (d3, t3, i3)), (p4, (d4, t4, i4))}"
proof -
  define E1 where "E1 = (p1, (d1, t1, i1))"
  define E2 where "E2 = (p2, (d2, t2, i2))"
  define E3 where "E3 = (p3, (d3, t3, i3))"
  define E4 where "E4 = (p4, (d4, t4, i4))"
  define c1 where "c1 = addUserDataToCache cache t1 p1 d1 i1"
  define c2 where "c2 = addUserDataToCache c1 t2 p2 d2 i2"
  define c3 where "c3 = addUserDataToCache c2 t3 p3 d3 i3"
  define c4 where "c4 = addUserDataToCache c3 t4 p4 d4 i4"
  define S1 where "S1 = obj_set cache p1 (d1, t1, i1)"
  define S2 where "S2 = obj_set c1 p2 (d2, t2, i2)"
  define S3 where "S3 = obj_set c2 p3 (d3, t3, i3)"
  define S4 where "S4 = obj_set c3 p4 (d4, t4, i4)"
  note E = E1_def E2_def E3_def E4_def
  have ne: "E1 \<noteq> E2" "E1 \<noteq> E3" "E1 \<noteq> E4" "E2 \<noteq> E3" "E2 \<noteq> E4" "E3 \<noteq> E4"
    using dist by (simp_all add: E)
  have tm: "fst (snd (snd E1)) = t1" "fst (snd (snd E2)) = t2" "fst (snd (snd E3)) = t3"
    "fst (snd (snd E4)) = t4" "fst E1 = p1" "fst E2 = p2" "fst E3 = p3" "fst E4 = p4"
    by (simp_all add: E)
  \<comment> \<open>first put\<close>
  have s1: "set S1 = insert E1 {x \<in> set cache. fst x \<noteq> p1}"
    unfolding S1_def E1_def by (rule set_obj_set[OF dk])
  have d1: "distinct (map fst c1)" and sub1: "set c1 \<subseteq> set S1"
    unfolding c1_def S1_def by (rule addUserDataToCache_props[OF dk])+
  have "{x \<in> set S1. x \<noteq> E1 \<and> fst (snd (snd E1)) \<le> fst (snd (snd x))} \<subseteq> {E1, E1}"
    using s1 old tm by auto
  then have "card {x \<in> set S1. x \<noteq> E1 \<and> fst (snd (snd E1)) \<le> fst (snd (snd x))} < 3"
    by (rule card_sub_pair)
  then have in1: "E1 \<in> set c1"
    unfolding c1_def S1_def using s1 addUserDataToCache_props(4)[OF dk, of E1 p1 d1 t1 i1] by (simp add: S1_def)
  have old1: "\<forall>x \<in> set c1. x = E1 \<or> fst (snd (snd x)) < t1"
    using sub1 s1 old by auto
  \<comment> \<open>second put\<close>
  have s2: "set S2 = insert E2 {x \<in> set c1. fst x \<noteq> p2}"
    unfolding S2_def E2_def by (rule set_obj_set[OF d1])
  have d2: "distinct (map fst c2)" and sub2: "set c2 \<subseteq> set S2"
    unfolding c2_def S2_def by (rule addUserDataToCache_props[OF d1])+
  have keep2: "e \<in> set c2" if "e \<in> set S2"
    "card {x \<in> set S2. x \<noteq> e \<and> fst (snd (snd e)) \<le> fst (snd (snd x))} < 3" for e
    using that addUserDataToCache_props(4)[OF d1, of e p2 d2 t2 i2] by (simp add: S2_def c2_def)
  have old2: "\<forall>x \<in> set S2. x = E1 \<or> x = E2 \<or> fst (snd (snd x)) < t1"
    using s2 old1 by auto
  have b2E1: "{x \<in> set S2. x \<noteq> E1 \<and> fst (snd (snd E1)) \<le> fst (snd (snd x))} \<subseteq> {E2, E2}"
    using old2 tm by auto
  have m2E1: "E1 \<in> set S2"
    using in1 s2 dist tm by auto
  have i21: "E1 \<in> set c2"
    by (rule keep2[OF m2E1 card_sub_pair[OF b2E1]])
  have b2E2: "{x \<in> set S2. x \<noteq> E2 \<and> fst (snd (snd E2)) \<le> fst (snd (snd x))} \<subseteq> {E2, E2}"
    using old2 tm t by auto
  have m2E2: "E2 \<in> set S2"
    using s2 by auto
  have i22: "E2 \<in> set c2"
    by (rule keep2[OF m2E2 card_sub_pair[OF b2E2]])
  note in2 = i21 i22
  have old2': "\<forall>x \<in> set c2. x = E1 \<or> x = E2 \<or> fst (snd (snd x)) < t1"
    using sub2 old2 by auto
  \<comment> \<open>third put\<close>
  have s3: "set S3 = insert E3 {x \<in> set c2. fst x \<noteq> p3}"
    unfolding S3_def E3_def by (rule set_obj_set[OF d2])
  have d3: "distinct (map fst c3)" and sub3: "set c3 \<subseteq> set S3"
    unfolding c3_def S3_def by (rule addUserDataToCache_props[OF d2])+
  have keep3: "e \<in> set c3" if "e \<in> set S3"
    "card {x \<in> set S3. x \<noteq> e \<and> fst (snd (snd e)) \<le> fst (snd (snd x))} < 3" for e
    using that addUserDataToCache_props(4)[OF d2, of e p3 d3 t3 i3] by (simp add: S3_def c3_def)
  have old3: "\<forall>x \<in> set S3. x = E1 \<or> x = E2 \<or> x = E3 \<or> fst (snd (snd x)) < t1"
    using s3 old2' by auto
  have b3E1: "{x \<in> set S3. x \<noteq> E1 \<and> fst (snd (snd E1)) \<le> fst (snd (snd x))} \<subseteq> {E2, E3}"
    using old3 tm by auto
  have m3E1: "E1 \<in> set S3"
    using in2 s3 dist tm by auto
  have i31: "E1 \<in> set c3"
    by (rule keep3[OF m3E1 card_sub_pair[OF b3E1]])
  have b3E2: "{x \<in> set S3. x \<noteq> E2 \<and> fst (snd (snd E2)) \<le> fst (snd (snd x))} \<subseteq> {E3, E3}"
    using old3 tm t by auto
  have m3E2: "E2 \<in> set S3"
    using in2 s3 dist tm by auto
  have i32: "E2 \<in> set c3"
    by (rule keep3[OF m3E2 card_sub_pair[OF b3E2]])
  have b3E3: "{x \<in> set S3. x \<noteq> E3 \<and> fst (snd (snd E3)) \<le> fst (snd (snd x))} \<subseteq> {E3, E3}"
    using old3 tm t by auto
  have m3E3: "E3 \<in> set S3"
    using s3 by auto
  have i33: "E3 \<in> set c3"
    by (rule keep3[OF m3E3 card_sub_pair[OF b3E3]])
  have old3': "\<forall>x \<in> set c3. x = E1 \<or> x = E2 \<or> x = E3 \<or> fst (snd (snd x)) < t1"
    using sub3 old3 by auto
  \<comment> \<open>fourth put\<close>
  have s4: "set S4 = insert E4 {x \<in> set c3. fst x \<noteq> p4}"
    unfolding S4_def E4_def by (rule set_obj_set[OF d3])
  have d4: "distinct (map fst c4)" and sub4: "set c4 \<subseteq> set S4"
    unfolding c4_def S4_def by (rule addUserDataToCache_props[OF d3])+
  have keep4: "e \<in> set c4" if "e \<in> set S4"
    "card {x \<in> set S4. x \<noteq> e \<and> fst (snd (snd e)) \<le> fst (snd (snd x))} < 3" for e
    using that addUserDataToCache_props(4)[OF d3, of e p4 d4 t4 i4] by (simp add: S4_def c4_def)
  have old4: "\<forall>x \<in> set S4. x = E1 \<or> x = E2 \<or> x = E3 \<or> x = E4 \<or> fst (snd (snd x)) < t1"
    using s4 old3' by auto
  have all4: "{E1, E2, E3, E4} \<subseteq> set S4"
    using s4 i31 i32 i33 dist tm by auto
  have "card {E1, E2, E3, E4} \<le> card (set S4)"
    using all4 by (intro card_mono) simp_all
  moreover have "card {E1, E2, E3, E4} = 4" using ne by simp
  moreover have "card (set S4) \<le> length S4" by (rule card_length)
  ultimately have "length S4 > 3" by simp
  then have len4: "length c4 = 3"
    unfolding c4_def S4_def by (rule addUserDataToCache_props(3)[OF d3])
  have b4E2: "{x \<in> set S4. x \<noteq> E2 \<and> fst (snd (snd E2)) \<le> fst (snd (snd x))} \<subseteq> {E3, E4}"
    using old4 tm t by auto
  have m4E2: "E2 \<in> set S4"
    using all4 by auto
  have i42: "E2 \<in> set c4"
    by (rule keep4[OF m4E2 card_sub_pair[OF b4E2]])
  have b4E3: "{x \<in> set S4. x \<noteq> E3 \<and> fst (snd (snd E3)) \<le> fst (snd (snd x))} \<subseteq> {E4, E4}"
    using old4 tm t by auto
  have m4E3: "E3 \<in> set S4"
    using all4 by auto
  have i43: "E3 \<in> set c4"
    by (rule keep4[OF m4E3 card_sub_pair[OF b4E3]])
  have b4E4: "{x \<in> set S4. x \<noteq> E4 \<and> fst (snd (snd E4)) \<le> fst (snd (snd x))} \<subseteq> {E4, E4}"
    using old4 tm t by auto
  have m4E4: "E4 \<in> set S4"
    using all4 by auto
  have i44: "E4 \<in> set c4"
    by (rule keep4[OF m4E4 card_sub_pair[OF b4E4]])
  have "card (set c4) \<le> 3" using len4 card_length[of c4] by simp
  moreover have "card {E2, E3, E4} = 3" using ne by simp
  moreover have "{E2, E3, E4} \<subseteq> set c4" using i42 i43 i44 by simp
  ultimately have "set c4 = {E2, E3, E4}"
    by (metis List.finite_set card_seteq)
  then show ?thesis
    unfolding c4_def c3_def c2_def c1_def E by simp
qed

text \<open>
  Claim C4. Four puts for four distinct patients at strictly increasing creation times
  \<open>t1 < t2 < t3 < t4\<close>, into a cache whose entries are all older than \<open>t1\<close> (the empty
  cache among them), leave exactly the entries of the second, third and fourth patient.
  In general a put stores the entry and, when the cache then holds more than 3 entries,
  keeps exactly 3 of them, none older than an evicted one; otherwise it evicts nothing.
  The keys of the cache object are pairwise distinct.
\<close>

theorem addUserDataToCache_keeps_three_newest:
  fixes cache0 cache :: "'d cache"
  shows
  "(distinct (map fst cache0) \<and> (\<forall>x \<in> set cache0. fst (snd (snd x)) < t1)
      \<and> distinct [p1, p2, p3, p4] \<and> t1 < t2 \<and> t2 < t3 \<and> t3 < t4
     \<longrightarrow> set (addUserDataToCache
               (addUserDataToCache
                  (addUserDataToCache (addUserDataToCache cache0 t1 p1 d1 i1) t2 p2 d2 i2)
                  t3 p3 d3 i3)
               t4 p4 d4 i4)
          = {(p2, (d2, t2, i2)), (p3, (d3, t3, i3)), (p4, (d4, t4, i4))})
   \<and> (distinct (map fst cache)
     \<longrightarrow> (length (obj_set cache p (d, now, ind)) \<le> 3
            \<longrightarrow> addUserDataToCache cache now p d ind = obj_set cache p (d, now, ind))
        \<and> (length (obj_set cache p (d, now, ind)) > 3
            \<longrightarrow> length (addUserDataToCache cache now p d ind) = 3
              \<and> set (addUserDataToCache cache now p d ind) \<subseteq> set (obj_set cache p (d, now, ind))
              \<and> (\<forall>kept \<in> set (addUserDataToCache cache now p d ind).
                    \<forall>gone \<in> set (obj_set cache p (d, now, ind))
                                - set (addUserDataToCache cache now p d ind).
                      fst (snd (snd gone)) \<le> fst (snd (snd kept)))))"
  using four_puts_after_older[of cache0 t1 p1 p2 p3 p4 t2 t3 t4 d1 i1 d2 i2 d3 i3 d4 i4]
    addUserDataToCache_evicts[of cache p d now ind]
  by blast

theorem addUserDataToCache_keeps_three_newest_witness:
  "set (addUserDataToCache
               (addUserDataToCache
                  (addUserDataToCache (addUserDataToCache [] 10 ''P1'' ''a1'' ''obs-1'') 20 ''P2'' ''a2'' ''obs-2'')
                  30 ''P3'' ''a3'' ''obs-3'')
               40 ''P4'' ''a4'' ''obs-4'')
          = {(''P2'', (''a2'', 20, ''obs-2'')), (''P3'', (''a3'', 30, ''obs-3'')), (''P4'', (''a4'', 40, ''obs-4''))}
   \<and> length (obj_set [(''P1'', (''a1'', 10, ''obs-1'')), (''P2'', (''a2'', 20, ''obs-2'')), (''P3'', (''a3'', 30, ''obs-3''))]
          ''P4'' (''a4'', 40, ''obs-4'')) > 3
   \<and> length (addUserDataToCache [(''P1'', (''a1'', 10, ''obs-1'')), (''P2'', (''a2'', 20, ''obs-2'')), (''P3'', (''a3'', 30, ''obs-3''))]
          40 ''P4'' ''a4'' ''obs-4'') = 3
   \<and> length (obj_set [(''P1'', (''a1'', 10, ''obs-1''))] ''P2'' (''a2'', 20, ''obs-2'')) \<le> 3
   \<and> addUserDataToCache [(''P1'', (''a1'', 10, ''obs-1''))] 20 ''P2'' ''a2'' ''obs-2''
      = [(''P1'', (''a1'', 10, ''obs-1'')), (''P2'', (''a2'', 20, ''obs-2''))]"
  using addUserDataToCache_keeps_three_newest
     [of "[]" 10 "''P1''" "''P2''" "''P3''" "''P4''" 20 30 40 "''a1''" "''obs-1''" "''a2''" "''obs-2''"
         "''a3''" "''obs-3''" "''a4''" "''obs-4''"
         "[(''P1'', (''a1'', 10, ''obs-1'')), (''P2'', (''a2'', 20, ''obs-2'')), (''P3'', (''a3'', 30, ''obs-3''))]"
         "''P4''" "''a4''" 40 "''obs-4''"]
    addUserDataToCache_keeps_three_newest
     [of "[]" 10 "''P1''" "''P2''" "''P3''" "''P4''" 20 30 40 "''a1''" "''obs-1''" "''a2''" "''obs-2''"
         "''a3''" "''obs-3''" "''a4''" "''obs-4''"
         "[(''P1'', (''a1'', 10, ''obs-1''))]"
         "''P2''" "''a2''" 20 "''obs-2''"]
  by simp

section \<open>The page fetcher\<close>

lemma flatMap_entry_Some:
  "flatMap_entry (map (\<lambda>x. \<lparr>total = t x, entry = Some (f x)\<rparr>) xs) = Inr (concat (map f xs))"
  by (induction xs) simp_all

lemma concat_pages: "concat (map (\<lambda>k. take p (drop (k * p) xs)) [0 ..< m]) = take (m * p) xs"
proof (induction m)
  case 0
  then show ?case by simp
next
  case (Suc m)
  have "take (m * p) xs @ take p (drop (m * p) xs) = take (m * p + p) xs"
    by (simp add: take_add)
  with Suc show ?case by (simp add: add.commute)
qed

lemma ceil_div_covers:
  assumes "0 < d"
  shows "n \<le> ceil_div n d * d"
proof -
  have "(n + d - 1) mod d < d" using assms by simp
  moreover have "(n + d - 1) div d * d + (n + d - 1) mod d = n + d - 1" by simp
  ultimately show ?thesis unfolding ceil_div_def using assms by linarith
qed

lemma ceil_div_below:
  assumes "0 < d" "k < ceil_div n d"
  shows "k * d < n"
proof -
  have "Suc k \<le> (n + d - 1) div d" using assms(2) by (simp add: ceil_div_def)
  then have "Suc k * d \<le> n + d - 1"
    using assms(1) by (simp add: less_eq_div_iff_mult_less_eq)
  then show ?thesis using assms(1) by simp
qed

lemma ceil_div_le:
  assumes "0 < d" "n \<le> m * d"
  shows "ceil_div n d \<le> m"
proof -
  have "n + d - 1 < (m + 1) * d" using assms by simp
  then have "(n + d - 1) div d < m + 1" using assms(1) by (simp add: div_less_iff_less_mult)
  then show ?thesis by (simp add: ceil_div_def)
qed

lemma ceil_div_gt:
  assumes "0 < d" "m * d < n"
  shows "m < ceil_div n d"
proof -
  have "(m + 1) * d \<le> n + d - 1" using assms by simp
  then have "m + 1 \<le> (n + d - 1) div d"
    using assms(1) by (simp add: less_eq_div_iff_mult_less_eq)
  then show ?thesis by (simp add: ceil_div_def)
qed

text \<open>\<open>ceil_div\<close> is \<open>Math.ceil(total / PAGE_SIZE)\<close>.\<close>

lemma ceil_div_is_ceiling:
  assumes "0 < d"
  shows "int (ceil_div n d) = \<lceil>real n / real d\<rceil>"
proof -
  let ?c = "ceil_div n d"
  have "n \<le> ?c * d" using assms by (rule ceil_div_covers)
  then have "real n \<le> real (?c * d)" by (rule of_nat_mono)
  then have up: "real n / real d \<le> real ?c"
    using assms by (simp add: pos_divide_le_eq)
  have "?c * d \<le> n + d - 1" by (simp add: ceil_div_def)
  then have "?c * d < n + d" using assms by simp
  then have "real (?c * d) < real (n + d)" by (simp only: of_nat_less_iff)
  then have "(real ?c - 1) * real d < real n" by (simp add: algebra_simps)
  then have lo: "real ?c - 1 < real n / real d"
    using assms by (simp add: pos_less_divide_eq)
  have "\<lceil>real n / real d\<rceil> = int ?c"
    by (rule ceiling_unique) (use up lo in simp_all)
  then show ?thesis by simp
qed

lemma flatten_paged:
  assumes "m = ceil_div (length xs) PAGE_SIZE" "m \<le> c"
  shows "flatMap_entry (take m (map (\<lambda>off. \<lparr>total = length xs,
            entry = (if off < length xs then Some (take PAGE_SIZE (drop off xs)) else None)\<rparr>)
           (map (\<lambda>k. k * PAGE_SIZE) [0 ..< c]))) = Inr xs"
proof -
  have P: "0 < PAGE_SIZE" by (simp add: PAGE_SIZE_def)
  have "take m (map (\<lambda>off. \<lparr>total = length xs,
            entry = (if off < length xs then Some (take PAGE_SIZE (drop off xs)) else None)\<rparr>)
           (map (\<lambda>k. k * PAGE_SIZE) [0 ..< c]))
     = map (\<lambda>k. \<lparr>total = length xs,
                  entry = Some (take PAGE_SIZE (drop (k * PAGE_SIZE) xs))\<rparr>) [0 ..< m]"
    using assms ceil_div_below[OF P, of _ "length xs"]
    by (simp add: take_map min_def)
  moreover have "take (m * PAGE_SIZE) xs = xs"
    using ceil_div_covers[OF P, of "length xs"] assms by simp
  ultimately show ?thesis
    by (simp add: flatMap_entry_Some concat_pages)
qed

lemma loadObsEntries_window:
  assumes rs: "Promise_all (map (fhir p PAGE_SIZE)
                  (map (\<lambda>k. k * PAGE_SIZE) [0 ..< CHUNK_PREFETCH_COUNT])) = Inr rs"
    and small: "total (hd rs) \<le> CHUNK_PREFETCH_COUNT * PAGE_SIZE"
  shows "loadObsEntries fhir p =
     (flatMap_entry (take (ceil_div (total (hd rs)) PAGE_SIZE) rs),
      map (\<lambda>k. k * PAGE_SIZE) [0 ..< CHUNK_PREFETCH_COUNT])"
proof -
  have "length rs = CHUNK_PREFETCH_COUNT"
    using Promise_all_length[OF rs] by simp
  then obtain r rs' where "rs = r # rs'"
    by (cases rs) (simp_all add: CHUNK_PREFETCH_COUNT_def)
  then show ?thesis
    using rs small by (simp add: loadObsEntries_def retrieveFromIterator_def)
qed

lemma loadObsEntries_paged_small:
  assumes "length xs \<le> CHUNK_PREFETCH_COUNT * PAGE_SIZE"
  shows "loadObsEntries (paged_remote xs) p =
     (Inr xs, map (\<lambda>k. k * PAGE_SIZE) [0 ..< CHUNK_PREFETCH_COUNT])"
proof -
  have P: "0 < PAGE_SIZE" by (simp add: PAGE_SIZE_def)
  have m: "ceil_div (length xs) PAGE_SIZE \<le> CHUNK_PREFETCH_COUNT"
    using assms ceil_div_le[OF P] by simp
  let ?b = "\<lambda>off. \<lparr>total = length xs,
            entry = (if off < length xs then Some (take PAGE_SIZE (drop off xs)) else None)\<rparr>"
  let ?offs = "map (\<lambda>k. k * PAGE_SIZE) [0 ..< CHUNK_PREFETCH_COUNT]"
  have pa: "Promise_all (map (paged_remote xs p PAGE_SIZE) ?offs) = Inr (map ?b ?offs)"
    using Promise_all_Inr[of ?b ?offs] by (simp add: paged_remote_def[abs_def])
  have hd: "total (hd (map ?b ?offs)) = length xs"
    by (simp add: CHUNK_PREFETCH_COUNT_def upt_rec)
  show ?thesis
    using loadObsEntries_window[of "paged_remote xs" p "map ?b ?offs", OF pa] assms
      flatten_paged[OF refl m]
    unfolding hd by simp
qed

text \<open>
  Beyond the prefetch window the fetcher tops up to \<open>ceil(total/100)\<close> requests, and
  against a remote that serves the list page by page it returns the list.
\<close>

lemma loadObsEntries_top_up:
  assumes rs: "Promise_all (map (fhir p PAGE_SIZE)
                  (map (\<lambda>k. k * PAGE_SIZE) [0 ..< CHUNK_PREFETCH_COUNT])) = Inr rs"
    and big: "total (hd rs) > CHUNK_PREFETCH_COUNT * PAGE_SIZE"
    and rs2: "Promise_all (map (fhir p PAGE_SIZE)
                  (map (\<lambda>k. k * PAGE_SIZE)
                     [CHUNK_PREFETCH_COUNT ..< ceil_div (total (hd rs)) PAGE_SIZE])) = Inr rs2"
  shows "loadObsEntries fhir p =
     (flatMap_entry (take (ceil_div (total (hd rs)) PAGE_SIZE) (rs @ rs2)),
      map (\<lambda>k. k * PAGE_SIZE) [0 ..< ceil_div (total (hd rs)) PAGE_SIZE])"
proof -
  have P: "0 < PAGE_SIZE" by (simp add: PAGE_SIZE_def)
  let ?m = "ceil_div (total (hd rs)) PAGE_SIZE"
  have m: "CHUNK_PREFETCH_COUNT < ?m" using big by (intro ceil_div_gt[OF P])
  then have sum: "CHUNK_PREFETCH_COUNT + (?m - CHUNK_PREFETCH_COUNT) = ?m" by simp
  have join: "[0 ..< CHUNK_PREFETCH_COUNT] @ [CHUNK_PREFETCH_COUNT ..< ?m] = [0 ..< ?m]"
    using m by (metis le_add_diff_inverse less_imp_le_nat upt_add_eq_append zero_le)
  have offs: "map (\<lambda>k. k * PAGE_SIZE) [0 ..< CHUNK_PREFETCH_COUNT]
        @ map (\<lambda>k. k * PAGE_SIZE) [CHUNK_PREFETCH_COUNT ..< ?m]
      = map (\<lambda>k. k * PAGE_SIZE) [0 ..< ?m]"
    unfolding map_append[symmetric] join ..
  have "length rs = CHUNK_PREFETCH_COUNT"
    using Promise_all_length[OF rs] by simp
  then obtain r rs' where c: "rs = r # rs'"
    by (cases rs) (simp_all add: CHUNK_PREFETCH_COUNT_def)
  show ?thesis
    using rs big rs2 offs sum unfolding c
    by (simp add: loadObsEntries_def retrieveFromIterator_def Let_def del: take_append)
qed

lemma loadObsEntries_paged_large:
  assumes "length xs > CHUNK_PREFETCH_COUNT * PAGE_SIZE"
  shows "loadObsEntries (paged_remote xs) p =
     (Inr xs, map (\<lambda>k. k * PAGE_SIZE) [0 ..< ceil_div (length xs) PAGE_SIZE])"
proof -
  have P: "0 < PAGE_SIZE" by (simp add: PAGE_SIZE_def)
  let ?m = "ceil_div (length xs) PAGE_SIZE"
  let ?b = "\<lambda>off. \<lparr>total = length xs,
            entry = (if off < length xs then Some (take PAGE_SIZE (drop off xs)) else None)\<rparr>"
  let ?o1 = "map (\<lambda>k. k * PAGE_SIZE) [0 ..< CHUNK_PREFETCH_COUNT]"
  let ?o2 = "map (\<lambda>k. k * PAGE_SIZE) [CHUNK_PREFETCH_COUNT ..< ?m]"
  have m: "CHUNK_PREFETCH_COUNT < ?m" using assms by (intro ceil_div_gt[OF P])
  have pa: "Promise_all (map (paged_remote xs p PAGE_SIZE) offs) = Inr (map ?b offs)" for offs
    using Promise_all_Inr[of ?b offs] by (simp add: paged_remote_def[abs_def])
  have hd: "total (hd (map ?b ?o1)) = length xs"
    by (simp add: CHUNK_PREFETCH_COUNT_def upt_rec)
  have join: "[0 ..< CHUNK_PREFETCH_COUNT] @ [CHUNK_PREFETCH_COUNT ..< ?m] = [0 ..< ?m]"
    using m by (metis le_add_diff_inverse less_imp_le_nat upt_add_eq_append zero_le)
  have all: "map ?b ?o1 @ map ?b ?o2 = map ?b (map (\<lambda>k. k * PAGE_SIZE) [0 ..< ?m])"
    unfolding map_append[symmetric] join ..
  have fl: "flatMap_entry (take ?m (map ?b (map (\<lambda>k. k * PAGE_SIZE) [0 ..< ?m]))) = Inr xs"
    by (rule flatten_paged) simp_all
  have big: "total (hd (map ?b ?o1)) > CHUNK_PREFETCH_COUNT * PAGE_SIZE"
    unfolding hd by (rule assms)
  have rs2: "Promise_all (map (paged_remote xs p PAGE_SIZE)
                  (map (\<lambda>k. k * PAGE_SIZE)
                     [CHUNK_PREFETCH_COUNT ..< ceil_div (total (hd (map ?b ?o1))) PAGE_SIZE]))
      = Inr (map ?b ?o2)"
    unfolding hd by (rule pa)
  show ?thesis
    using loadObsEntries_top_up[of "paged_remote xs" p "map ?b ?o1" "map ?b ?o2", OF pa big rs2]
    unfolding hd all fl .
qed

lemma prefetch_offsets:
  "map (\<lambda>k. k * PAGE_SIZE) [0 ..< CHUNK_PREFETCH_COUNT] = [0, 100, 200, 300, 400, 500]"
  by (simp add: PAGE_SIZE_def CHUNK_PREFETCH_COUNT_def upt_rec)

text \<open>
  Claim C1, as the code has it. For a total of at most 600, \<open>loadObsEntries\<close> issues
  exactly the 6 page requests of the prefetch window (offsets 0 to 500), whatever the
  total; of the 6 responses it keeps the first \<open>ceil(total/100)\<close> and flattens them in
  order. Against a remote that serves a list of at most 600 observations page by page the
  result is that list.
\<close>

theorem loadObsEntries_prefetch_window:
  "(length xs \<le> CHUNK_PREFETCH_COUNT * PAGE_SIZE
      \<longrightarrow> loadObsEntries (paged_remote xs) p = (Inr xs, [0, 100, 200, 300, 400, 500]))
   \<and> (Promise_all (map (fhir p PAGE_SIZE) [0, 100, 200, 300, 400, 500]) = Inr rs
        \<and> total (hd rs) \<le> CHUNK_PREFETCH_COUNT * PAGE_SIZE
      \<longrightarrow> loadObsEntries fhir p
            = (flatMap_entry (take (ceil_div (total (hd rs)) PAGE_SIZE) rs),
               [0, 100, 200, 300, 400, 500])
          \<and> length (take (ceil_div (total (hd rs)) PAGE_SIZE) rs)
            = ceil_div (total (hd rs)) PAGE_SIZE)"
proof -
  have P: "0 < PAGE_SIZE" by (simp add: PAGE_SIZE_def)
  have a: "loadObsEntries (paged_remote xs) p = (Inr xs, [0, 100, 200, 300, 400, 500])"
    if "length xs \<le> CHUNK_PREFETCH_COUNT * PAGE_SIZE"
    using loadObsEntries_paged_small[OF that, of p] by (simp only: prefetch_offsets)
  have b: "loadObsEntries fhir p
            = (flatMap_entry (take (ceil_div (total (hd rs)) PAGE_SIZE) rs),
               [0, 100, 200, 300, 400, 500])
          \<and> length (take (ceil_div (total (hd rs)) PAGE_SIZE) rs)
            = ceil_div (total (hd rs)) PAGE_SIZE"
    if rs: "Promise_all (map (fhir p PAGE_SIZE) [0, 100, 200, 300, 400, 500]) = Inr rs"
      and small: "total (hd rs) \<le> CHUNK_PREFETCH_COUNT * PAGE_SIZE"
  proof -
    have rs': "Promise_all (map (fhir p PAGE_SIZE)
                  (map (\<lambda>k. k * PAGE_SIZE) [0 ..< CHUNK_PREFETCH_COUNT])) = Inr rs"
      using rs by (simp only: prefetch_offsets)
    have "length rs = CHUNK_PREFETCH_COUNT"
      using Promise_all_length[OF rs] by (simp add: CHUNK_PREFETCH_COUNT_def)
    moreover have "ceil_div (total (hd rs)) PAGE_SIZE \<le> CHUNK_PREFETCH_COUNT"
      using small by (intro ceil_div_le[OF P])
    ultimately have "length (take (ceil_div (total (hd rs)) PAGE_SIZE) rs)
            = ceil_div (total (hd rs)) PAGE_SIZE" by simp
    then show ?thesis
      using loadObsEntries_window[of fhir p rs, OF rs' small] by (simp only: prefetch_offsets)
  qed
  show ?thesis using a b by blast
qed

theorem loadObsEntries_prefetch_window_witness:
  "length [''obs-1'', ''obs-2''] \<le> CHUNK_PREFETCH_COUNT * PAGE_SIZE
   \<and> Promise_all (map (paged_remote [''obs-1'', ''obs-2''] ''patient'' PAGE_SIZE)
         [0, 100, 200, 300, 400, 500])
       = Inr [\<lparr>total = 2, entry = Some [''obs-1'', ''obs-2'']\<rparr>, \<lparr>total = 2, entry = None\<rparr>,
              \<lparr>total = 2, entry = None\<rparr>, \<lparr>total = 2, entry = None\<rparr>,
              \<lparr>total = 2, entry = None\<rparr>, \<lparr>total = 2, entry = None\<rparr>]
   \<and> loadObsEntries (paged_remote [''obs-1'', ''obs-2'']) ''patient''
       = (Inr [''obs-1'', ''obs-2''], [0, 100, 200, 300, 400, 500])
   \<and> ceil_div 2 PAGE_SIZE = 1"
  using loadObsEntries_prefetch_window
    [of "[''obs-1'', ''obs-2'']" "''patient''" "paged_remote [''obs-1'', ''obs-2'']"
        "[\<lparr>total = 2, entry = Some [''obs-1'', ''obs-2'']\<rparr>, \<lparr>total = 2, entry = None\<rparr>,
              \<lparr>total = 2, entry = None\<rparr>, \<lparr>total = 2, entry = None\<rparr>,
              \<lparr>total = 2, entry = None\<rparr>, \<lparr>total = 2, entry = None\<rparr>]"]
  by (simp add: paged_remote_def PAGE_SIZE_def CHUNK_PREFETCH_COUNT_def ceil_div_def)

text \<open>
  The claim as stated fails: for a patient with 2 observations the fetcher issues 6 page
  requests, not \<open>ceil(2/100) = 1\<close>.
\<close>

theorem loadObsEntries_requests_counterexample:
  "length [''obs-1'', ''obs-2''] \<le> CHUNK_PREFETCH_COUNT * PAGE_SIZE
   \<and> snd (loadObsEntries (paged_remote [''obs-1'', ''obs-2'']) ''patient'')
       = [0, 100, 200, 300, 400, 500]
   \<and> length (snd (loadObsEntries (paged_remote [''obs-1'', ''obs-2'']) ''patient''))
       \<noteq> ceil_div (length [''obs-1'', ''obs-2'']) PAGE_SIZE"
proof -
  have "length [''obs-1'', ''obs-2''] \<le> CHUNK_PREFETCH_COUNT * PAGE_SIZE"
    by (simp add: CHUNK_PREFETCH_COUNT_def PAGE_SIZE_def)
  from loadObsEntries_paged_small[OF this, of "''patient''"] this
  show ?thesis
    by (simp add: prefetch_offsets) (simp add: ceil_div_def PAGE_SIZE_def)
qed

section \<open>The timeline pivot\<close>

lemma obj_get_obj_set: "obj_get (obj_set obj k v) n = (if n = k then Some v else obj_get obj n)"
  by (induction obj) (auto simp: obj_get_def)

lemma array_set_twice: "array_set (array_set r i a) i b = array_set r i b"
  by (simp add: array_set_def list_update_append)

lemma trim_holes_snoc_Some: "trim_holes (xs @ [Some m]) = xs @ [Some m]"
  by (simp add: trim_holes_def)

lemma trim_holes_snoc_None: "trim_holes (xs @ [None]) = trim_holes xs"
  by (simp add: trim_holes_def)

lemma trim_holes_pad: "xs = trim_holes xs @ replicate (length xs - length (trim_holes xs)) None"
proof (induction xs rule: rev_induct)
  case Nil
  then show ?case by (simp add: trim_holes_def)
next
  case (snoc x xs)
  show ?case
  proof (cases x)
    case None
    have "length (trim_holes xs) \<le> length xs"
      by (simp add: trim_holes_def) (metis length_dropWhile_le length_rev)
    then have "replicate (Suc (length xs) - length (trim_holes xs)) None
        = replicate (length xs - length (trim_holes xs)) None @ [None :: 'a option]"
      by (simp add: Suc_diff_le replicate_append_same)
    then show ?thesis using snoc None by (simp add: trim_holes_snoc_None)
  next
    case (Some m)
    then show ?thesis by (simp add: trim_holes_snoc_Some)
  qed
qed

lemma trim_holes_all_None: "(\<forall>c \<in> set xs. c = None) \<Longrightarrow> trim_holes xs = []"
  by (induction xs rule: rev_induct) (simp_all add: trim_holes_def)

lemma length_trim_holes: "length (trim_holes xs) \<le> length xs"
  by (simp add: trim_holes_def) (metis length_dropWhile_le length_rev)

lemma members_forEach_get:
  "obj_get (members_forEach i rows ms) n =
     (case find (\<lambda>m. row_key m = n) (rev (concat (map (case_option [] (\<lambda>m. [m])) ms))) of
        None \<Rightarrow> obj_get rows n
      | Some m \<Rightarrow> Some (array_set (case obj_get rows n of None \<Rightarrow> [] | Some r \<Rightarrow> r) i m))"
proof (induction ms rule: rev_induct)
  case Nil
  then show ?case by (simp add: members_forEach_def)
next
  case (snoc x ms)
  have step: "members_forEach i rows (ms @ [x]) =
     (case x of None \<Rightarrow> members_forEach i rows ms
      | Some member \<Rightarrow>
          obj_set (members_forEach i rows ms) (row_key member)
            (array_set (case obj_get (members_forEach i rows ms) (row_key member) of
                          None \<Rightarrow> [] | Some r \<Rightarrow> r) i member))"
    unfolding members_forEach_def Let_def by (simp split: option.splits)
  show ?case
  proof (cases x)
    case None
    then show ?thesis using snoc step by simp
  next
    case (Some member)
    then show ?thesis
      using snoc step
      by (auto simp: Let_def obj_get_obj_set array_set_twice split: option.splits)
  qed
qed


lemma all_None_replicate: "(\<forall>c \<in> set xs. c = None) \<Longrightarrow> xs = replicate (length xs) None"
  by (induction xs) simp_all

lemma row_of_snoc_None:
  "member_named n e = None \<Longrightarrow> row_of n (ps @ [e]) = row_of n ps"
  by (simp add: row_of_def trim_holes_snoc_None)

lemma row_of_snoc_Some:
  "member_named n e = Some m \<Longrightarrow> row_of n (ps @ [e]) = Some (map (member_named n) ps @ [Some m])"
  by (simp add: row_of_def trim_holes_snoc_Some)

lemma row_of_set:
  "array_set (case row_of n ps of None \<Rightarrow> [] | Some r \<Rightarrow> r) (length ps) m
     = map (member_named n) ps @ [Some m]"
proof -
  let ?cells = "map (member_named n) ps"
  show ?thesis
  proof (cases "list_all (\<lambda>e. member_named n e = None) ps")
    case True
    then have "\<forall>c \<in> set ?cells. c = None" by (simp add: list_all_iff)
    then have "?cells = replicate (length ps) None"
      using all_None_replicate[of ?cells] by simp
    moreover have "row_of n ps = None" using True by (simp add: row_of_def)
    ultimately show ?thesis by (simp add: array_set_def)
  next
    case False
    have le: "length (trim_holes ?cells) \<le> length ps"
      using length_trim_holes[of ?cells] by simp
    have pad: "trim_holes ?cells @ replicate (length ps - length (trim_holes ?cells)) None = ?cells"
      using trim_holes_pad[of ?cells] by simp
    have "row_of n ps = Some (trim_holes ?cells)" using False by (simp add: row_of_def)
    then have "array_set (case row_of n ps of None \<Rightarrow> [] | Some r \<Rightarrow> r) (length ps) m
       = (trim_holes ?cells @ replicate (length ps - length (trim_holes ?cells)) None) @ [Some m]"
      using le by (simp add: array_set_def)
    then show ?thesis by (simp only: pad)
  qed
qed

lemma row_step:
  assumes inv: "obj_get rows n = row_of n ps" and ms: "slots e = Some ms"
  shows "obj_get (members_forEach (length ps) rows ms) n = row_of n (ps @ [e])"
proof -
  have mn: "find (\<lambda>m. row_key m = n) (rev (concat (map (case_option [] (\<lambda>m. [m])) ms)))
      = member_named n e"
    using ms by (simp add: member_named_def)
  show ?thesis
  proof (cases "member_named n e")
    case None
    then show ?thesis
      unfolding members_forEach_get mn by (simp add: inv row_of_snoc_None)
  next
    case (Some m)
    then show ?thesis
      unfolding members_forEach_get mn by (simp add: inv row_of_snoc_Some row_of_set)
  qed
qed

lemma parseEntries_from_rows:
  assumes "\<forall>e \<in> set es. slots e \<noteq> None"
    and "\<forall>n. obj_get rows n = row_of n ps"
  shows "\<exists>rows'. parseEntries_from (length ps) rows es = Inr rows' \<and>
     (\<forall>n. obj_get rows' n = row_of n (ps @ es))"
  using assms
proof (induction es arbitrary: rows ps)
  case Nil
  then show ?case by simp
next
  case (Cons e es)
  from Cons.prems(1) obtain ms where ms: "slots e = Some ms" by auto
  have inv': "\<forall>n. obj_get (members_forEach (length ps) rows ms) n = row_of n (ps @ [e])"
    using row_step[OF _ ms] Cons.prems(2) by blast
  have "\<forall>e \<in> set es. slots e \<noteq> None" using Cons.prems(1) by simp
  from Cons.IH[OF this, of "members_forEach (length ps) rows ms" "ps @ [e]"] inv'
  show ?case using ms by simp
qed

lemma parseEntries_rows:
  assumes "\<forall>e \<in> set es. slots e \<noteq> None"
  shows "\<exists>rows. parseEntries es = Inr rows \<and> (\<forall>n. obj_get rows n = row_of n es)"
  using parseEntries_from_rows[OF assms, of "[]" "[]"]
  by (simp add: parseEntries_def obj_get_def row_of_def)

lemma parseEntries_TypeError:
  "\<exists>e \<in> set es. slots e = None \<Longrightarrow> parseEntries_from i rows es = Inl TypeError"
  by (induction es arbitrary: i rows) (auto split: option.splits)

lemma trim_holes_last: "trim_holes xs \<noteq> [] \<Longrightarrow> last (trim_holes xs) \<noteq> None"
proof -
  assume ne: "trim_holes xs \<noteq> []"
  have "last (trim_holes xs) = hd (dropWhile (\<lambda>c. c = None) (rev xs))"
    using ne by (simp add: trim_holes_def last_rev)
  moreover have "dropWhile (\<lambda>c. c = None) (rev xs) \<noteq> []"
    using ne by (simp add: trim_holes_def)
  ultimately show ?thesis using hd_dropWhile[of "\<lambda>c. c = None" "rev xs"] by simp
qed

lemma trim_holes_nth:
  "i < length (trim_holes xs) \<Longrightarrow> trim_holes xs ! i = xs ! i"
  using trim_holes_pad[of xs] by (metis nth_append)

lemma trim_holes_beyond:
  assumes "length (trim_holes xs) \<le> i" "i < length xs"
  shows "xs ! i = None"
proof -
  let ?t = "trim_holes xs"
  have "xs ! i = (?t @ replicate (length xs - length ?t) None) ! i"
    using trim_holes_pad[of xs] by simp
  also have "\<dots> = None" using assms by (simp add: nth_append)
  finally show ?thesis .
qed

lemma trim_holes_nonempty: "\<exists>c \<in> set xs. c \<noteq> None \<Longrightarrow> trim_holes xs \<noteq> []"
  using trim_holes_pad[of xs] by (metis append_Nil in_set_replicate)

text \<open>
  Claim C8, as the code has it. For an entry list in which every entry has a member
  array, \<open>parseEntries\<close> returns one row per member name that occurs. The row is
  positionally aligned with the entry order and has an absent slot wherever the entry at
  that index has no such member, but it ends at the last entry that has the member: its
  length is at most the length of the entry list, and no entry beyond its end has the
  member.
\<close>

theorem parseEntries_rows_aligned:
  assumes "\<forall>e \<in> set es. slots e \<noteq> None"
  shows "\<exists>rows. parseEntries es = Inr rows
     \<and> (\<forall>n. obj_get rows n = row_of n es)
     \<and> (\<forall>n row. obj_get rows n = Some row \<longrightarrow>
           length row \<le> length es \<and> row \<noteq> [] \<and> last row \<noteq> None
           \<and> (\<forall>i < length row. row ! i = member_named n (es ! i))
           \<and> (\<forall>i. length row \<le> i \<and> i < length es \<longrightarrow> member_named n (es ! i) = None))"
proof -
  from parseEntries_rows[OF assms] obtain rows where
    r: "parseEntries es = Inr rows" and g: "\<forall>n. obj_get rows n = row_of n es" by blast
  have "length row \<le> length es \<and> row \<noteq> [] \<and> last row \<noteq> None
           \<and> (\<forall>i < length row. row ! i = member_named n (es ! i))
           \<and> (\<forall>i. length row \<le> i \<and> i < length es \<longrightarrow> member_named n (es ! i) = None)"
    if "obj_get rows n = Some row" for n row
  proof -
    let ?cells = "map (member_named n) es"
    have ro: "row_of n es = Some row" using that g by simp
    then have nall: "\<not> list_all (\<lambda>e. member_named n e = None) es"
      by (auto simp: row_of_def split: if_splits)
    have row: "row = trim_holes ?cells" using ro nall by (simp add: row_of_def)
    have l: "length row \<le> length es" unfolding row using length_trim_holes[of ?cells] by simp
    have "\<exists>c \<in> set ?cells. c \<noteq> None" using nall by (auto simp: list_all_iff)
    then have ne: "row \<noteq> []" unfolding row by (rule trim_holes_nonempty)
    have la: "last row \<noteq> None" using ne unfolding row by (rule trim_holes_last)
    have nth: "row ! i = member_named n (es ! i)" if "i < length row" for i
      using that l trim_holes_nth[of i ?cells] unfolding row by simp
    have bey: "member_named n (es ! i) = None" if "length row \<le> i" "i < length es" for i
      using that trim_holes_beyond[of ?cells i] unfolding row by simp
    show ?thesis using l ne la nth bey by blast
  qed
  then show ?thesis using r g by blast
qed

theorem parseEntries_rows_aligned_witness:
  "slots \<lparr>item = ex_panel ''a1'' ''2024-01-05T08:00'', slots = Some [Some ex_hgb]\<rparr> \<noteq> None
   \<and> slots \<lparr>item = ex_panel ''a2'' ''2024-01-04T08:00'', slots = Some [None]\<rparr> \<noteq> None
   \<and> parseEntries [\<lparr>item = ex_panel ''a1'' ''2024-01-05T08:00'', slots = Some [Some ex_hgb]\<rparr>,
                    \<lparr>item = ex_panel ''a2'' ''2024-01-04T08:00'', slots = Some [None]\<rparr>]
      = Inr [(''Hgb'', [Some ex_hgb])]"
  using parseEntries_rows_aligned
    [of "[\<lparr>item = ex_panel ''a1'' ''2024-01-05T08:00'', slots = Some [Some ex_hgb]\<rparr>,
          \<lparr>item = ex_panel ''a2'' ''2024-01-04T08:00'', slots = Some [None]\<rparr>]"]
  by (simp add: parseEntries_def members_forEach_def obj_get_def row_key_def array_set_def
        ex_hgb_def)

text \<open>
  The claim as stated fails: with two entries of which only the first has the member, the
  row has length 1, not 2.
\<close>

theorem parseEntries_row_length_counterexample:
  "parseEntries [\<lparr>item = ex_panel ''a1'' ''2024-01-05T08:00'', slots = Some [Some ex_hgb]\<rparr>,
                 \<lparr>item = ex_panel ''a2'' ''2024-01-04T08:00'', slots = Some [None]\<rparr>]
      = Inr [(''Hgb'', [Some ex_hgb])]
   \<and> length [Some ex_hgb]
      \<noteq> length [\<lparr>item = ex_panel ''a1'' ''2024-01-05T08:00'', slots = Some [Some ex_hgb]\<rparr>,
                 \<lparr>item = ex_panel ''a2'' ''2024-01-04T08:00'', slots = Some [None]\<rparr>]"
  by (simp add: parseEntries_def members_forEach_def obj_get_def row_key_def array_set_def
        ex_hgb_def)

section \<open>Reconstruction\<close>

subsection \<open>The state after the two loops\<close>

lemma parse_panel:
  assumes "hasMember e = Some refs"
  shows "parseSingleObsData NM MI st e =
    ((parsed_base NM e)\<lparr>members := Some (length (store st))\<rparr>,
     st\<lparr>store := store st @ [new_Array (length (slot_keys e))],
        memberRefs := foldl (\<lambda>mr (k, v). obj_set mr k v) (memberRefs st)
                        (map (\<lambda>(k, i). (k, (length (store st), i)))
                           (zip (slot_keys e) [0 ..< length (slot_keys e)]))\<rparr>)"
proof -
  have z: "zip (map member_key refs) [0 ..< length refs]
       = map (\<lambda>(memb, i). (member_key memb, i)) (zip refs [0 ..< length refs])"
    by (simp add: zip_map1)
  have "foldl (\<lambda>mr (memb, i). obj_set mr (member_key memb) (a, i)) mr (zip refs [0 ..< length refs])
     = foldl (\<lambda>mr (k, v). obj_set mr k v) (mr :: (string \<times> nat \<times> nat) list)
         (map (\<lambda>(k, i). (k, (a, i))) (zip (map member_key refs) [0 ..< length refs]))" for a mr
    unfolding z by (simp add: foldl_map case_prod_unfold)
  then show ?thesis
    using assms by (simp add: parseSingleObsData_def parsed_base_def slot_keys_def Let_def)
qed

lemma parse_single:
  assumes "hasMember e = None"
  shows "parseSingleObsData NM MI st e = (parsed_single NM MI e, st)"
  using assms
  by (simp add: parseSingleObsData_def parsed_single_def parsed_base_def Let_def
        getEntryConceptClassUuid_def)

lemma entries_forEach_state:
  "entries_forEach T NM MI st xs =
     st\<lparr>store := store st @ map (\<lambda>p. new_Array (length (slot_keys p)))
                              (filter is_panel (filter (recognised T) xs)),
        memberRefs := foldl (\<lambda>mr (k, v). obj_set mr k v) (memberRefs st)
                        (panel_refs (length (store st)) (filter is_panel (filter (recognised T) xs))),
        obsByClass := foldl (\<lambda>obj q. obj_push obj (conceptClass q) q) (obsByClass st)
                        (addr_panels NM (length (store st)) (filter is_panel (filter (recognised T) xs))),
        singeEntries := singeEntries st
                        @ map (parsed_single NM MI)
                            (filter (\<lambda>e. \<not> is_panel e) (filter (recognised T) xs))\<rparr>"
proof (induction xs arbitrary: st)
  case Nil
  then show ?case by simp
next
  case (Cons e xs)
  show ?case
  proof (cases "recognised T e")
    case False
    then show ?thesis using Cons[of st] by (simp add: recognised_def)
  next
    case True
    show ?thesis
    proof (cases "hasMember e")
      case None
      then show ?thesis
        using True Cons[of "st\<lparr>singeEntries := singeEntries st @ [parsed_single NM MI e]\<rparr>"]
        by (simp add: recognised_def is_panel_def parse_single parsed_single_def parsed_base_def)
    next
      case (Some refs)
      then show ?thesis
        using True
        by (simp add: recognised_def is_panel_def parse_panel Cons parsed_base_def)
    qed
  qed
qed

lemma singeEntries_forEach_state:
  "singeEntries_forEach st ss =
     st\<lparr>store := fill (memberRefs st) (store st) ss,
        obsByClass := foldl (\<lambda>obj q. obj_push obj (conceptClass q) q) (obsByClass st)
                        (filter (\<lambda>s. obj_get (memberRefs st) (obs_id s) = None) ss)\<rparr>"
proof (induction ss arbitrary: st)
  case Nil
  then show ?case by simp
next
  case (Cons s ss)
  show ?case
  proof (cases "obj_get (memberRefs st) (obs_id s)")
    case None
    then show ?thesis by (simp add: Cons)
  next
    case (Some ai)
    then show ?thesis by (cases ai) (simp add: Cons)
  qed
qed

lemma foldl_obj_push:
  "foldl (\<lambda>obj q. obj_push obj (f q) q) obj qs
     = map (\<lambda>(u, vs). (u, vs @ filter (\<lambda>q. f q = u) qs)) obj"
proof (induction qs arbitrary: obj)
  case Nil
  then show ?case by simp
next
  case (Cons q qs)
  show ?case
    unfolding foldl_Cons Cons
    by (auto simp: obj_push_def)
qed

lemma find_snoc:
  "find P (xs @ [x]) = (case find P xs of None \<Rightarrow> (if P x then Some x else None) | Some y \<Rightarrow> Some y)"
  by (induction xs) simp_all


lemma fill_slot:
  assumes "inrange mr h" "a < length h" "i < length (h ! a)"
  shows "length (fill mr h ss) = length h \<and> length (fill mr h ss ! a) = length (h ! a) \<and>
    fill mr h ss ! a ! i =
      (case find (\<lambda>s. obj_get mr (obs_id s) = Some (a, i)) (rev ss) of
         None \<Rightarrow> h ! a ! i
       | Some s \<Rightarrow> Some s)"
  using assms
proof (induction ss arbitrary: h)
  case Nil
  then show ?case by simp
next
  case (Cons s ss)
  show ?case
  proof (cases "obj_get mr (obs_id s)")
    case None
    then show ?thesis using Cons by (simp add: find_snoc split: option.splits)
  next
    case (Some ai)
    obtain a' i' where ai: "ai = (a', i')" by (cases ai)
    have r: "a' < length h" "i' < length (h ! a')"
      using Cons.prems(1) Some ai by (auto simp: inrange_def)
    let ?h = "h[a' := array_set (h ! a') i' s]"
    have as: "array_set (h ! a') i' s = (h ! a')[i' := Some s]"
      using r by (simp add: array_set_def)
    have len: "length ?h = length h" "\<And>b. b < length h \<Longrightarrow> length (?h ! b) = length (h ! b)"
      using r by (simp_all add: as nth_list_update)
    have ir: "inrange mr ?h"
      using Cons.prems(1) len unfolding inrange_def by metis
    have ih: "length (fill mr ?h ss) = length ?h \<and> length (fill mr ?h ss ! a) = length (?h ! a) \<and>
      fill mr ?h ss ! a ! i =
        (case find (\<lambda>s. obj_get mr (obs_id s) = Some (a, i)) (rev ss) of
           None \<Rightarrow> ?h ! a ! i
         | Some s \<Rightarrow> Some s)"
      using Cons.IH[OF ir] Cons.prems(2,3) len by simp
    have cell: "?h ! a ! i = (if a' = a \<and> i' = i then Some s else h ! a ! i)"
      using r Cons.prems(2,3) by (auto simp: as nth_list_update)
    show ?thesis
      using ih len Cons.prems(2) Some ai cell
      by (auto simp: find_snoc split: option.splits)
  qed
qed

lemma obj_get_foldl_obj_set:
  "obj_get (foldl (\<lambda>mr (k, v). obj_set mr k v) mr kvs) k
     = (case map_of (rev kvs) k of None \<Rightarrow> obj_get mr k | Some v \<Rightarrow> Some v)"
proof (induction kvs arbitrary: mr)
  case Nil
  then show ?case by simp
next
  case (Cons kv kvs)
  obtain k' v' where kv: "kv = (k', v')" by (cases kv)
  show ?case
    unfolding foldl_Cons Cons kv
    by (simp add: obj_get_obj_set map_add_def split: option.splits)
qed

lemma panel_refs_set:
  "(k, (a, i)) \<in> set (panel_refs b P) \<longleftrightarrow>
     b \<le> a \<and> a < b + length P \<and> i < length (slot_keys (P ! (a - b)))
     \<and> k = slot_keys (P ! (a - b)) ! i"
proof (induction P arbitrary: b)
  case Nil
  then show ?case by simp
next
  case (Cons p P)
  have hd: "(k, (a, i)) \<in> set (map (\<lambda>(k, i). (k, (b, i))) (zip (slot_keys p) [0 ..< length (slot_keys p)]))
      \<longleftrightarrow> a = b \<and> i < length (slot_keys p) \<and> k = slot_keys p ! i"
  proof -
    have "(k, i) \<in> set (zip (slot_keys p) [0 ..< length (slot_keys p)])
        \<longleftrightarrow> i < length (slot_keys p) \<and> k = slot_keys p ! i"
      by (auto simp: in_set_zip)
    then show ?thesis by auto
  qed
  show ?case
    unfolding panel_refs.simps set_append Un_iff hd Cons
    by (auto simp: nth_Cons' Suc_diff_le)
qed

lemma inrange_after_first_loop:
  "inrange (foldl (\<lambda>mr (k, v). obj_set mr k v) [] (panel_refs 0 P))
           (map (\<lambda>p. new_Array (length (slot_keys p))) P)"
  unfolding inrange_def
proof (intro allI impI)
  fix k a i
  assume "obj_get (foldl (\<lambda>mr (k, v). obj_set mr k v) [] (panel_refs 0 P)) k = Some (a, i)"
  then have "map_of (rev (panel_refs 0 P)) k = Some (a, i)"
    unfolding obj_get_foldl_obj_set by (simp add: obj_get_def split: option.splits)
  then have "(k, (a, i)) \<in> set (panel_refs 0 P)"
    using map_of_SomeD by fastforce
  then have "a < length P \<and> i < length (slot_keys (P ! a))"
    by (simp add: panel_refs_set)
  then show "a < length (map (\<lambda>p. new_Array (length (slot_keys p))) P) \<and>
     i < length (map (\<lambda>p. new_Array (length (slot_keys p))) P ! a)"
    by (simp add: new_Array_def)
qed

lemma memberRefs_key:
  assumes "obj_get (foldl (\<lambda>mr (k, v). obj_set mr k v) [] (panel_refs 0 P)) k = Some (a, i)"
  shows "a < length P \<and> i < length (slot_keys (P ! a)) \<and> k = slot_keys (P ! a) ! i"
proof -
  have "map_of (rev (panel_refs 0 P)) k = Some (a, i)"
    using assms unfolding obj_get_foldl_obj_set by (simp add: obj_get_def split: option.splits)
  then have "(k, (a, i)) \<in> set (panel_refs 0 P)"
    using map_of_SomeD by fastforce
  then show ?thesis by (simp add: panel_refs_set)
qed

lemma reconstruct_state_eq:
  fixes C raw
  defines "TC \<equiv> test_concepts C"
  defines "T \<equiv> map uuid TC"
  defines "NM \<equiv> fromEntries (map (\<lambda>c. (uuid c, display c)) TC)"
  defines "MI \<equiv> extractMetaInformation TC"
  defines "P \<equiv> raw_panels T raw"
  defines "singles \<equiv> map (parsed_single NM MI) (raw_singles T raw)"
  defines "MR \<equiv> foldl (\<lambda>mr (k, v). obj_set mr k v) [] (panel_refs 0 P)"
  shows "reconstruct_state C raw =
    \<lparr>obsByClass =
        map (\<lambda>(u, vs). (u, vs @ filter (\<lambda>q. conceptClass q = u)
                (addr_panels NM 0 P @ filter (\<lambda>s. obj_get MR (obs_id s) = None) singles)))
          (fromEntries (map (\<lambda>x. (x, [])) T)),
     singeEntries = singles,
     memberRefs = MR,
     store = fill MR (map (\<lambda>p. new_Array (length (slot_keys p))) P) singles\<rparr>"
proof -
  let ?push = "\<lambda>obj q. obj_push obj (conceptClass q) q"
  let ?obc0 = "fromEntries (map (\<lambda>x. (x, [])) T) :: (string \<times> ObsRecord list) list"
  let ?st0 = "\<lparr>obsByClass = ?obc0, singeEntries = [], memberRefs = [], store = []\<rparr>"
  let ?h1 = "map (\<lambda>p. new_Array (length (slot_keys p))) P"
  let ?st1 = "\<lparr>obsByClass = foldl ?push ?obc0 (addr_panels NM 0 P), singeEntries = singles,
               memberRefs = MR, store = ?h1\<rparr>"
  have 1: "entries_forEach T NM MI ?st0 raw = ?st1"
    unfolding entries_forEach_state P_def raw_panels_def singles_def raw_singles_def MR_def
    by simp
  have 2: "singeEntries_forEach ?st1 singles =
     \<lparr>obsByClass = foldl ?push ?obc0
         (addr_panels NM 0 P @ filter (\<lambda>s. obj_get MR (obs_id s) = None) singles),
      singeEntries = singles, memberRefs = MR, store = fill MR ?h1 singles\<rparr>"
    unfolding singeEntries_forEach_state by simp
  have 3: "reconstruct_state C raw = singeEntries_forEach ?st1 singles"
    unfolding reconstruct_state_def Let_def TC_def[symmetric] T_def[symmetric]
      NM_def[symmetric] MI_def[symmetric] 1
    by simp
  show ?thesis
    unfolding 3 2 by (simp only: foldl_obj_push)
qed

lemma obj_set_sub: "set (obj_set obj k v) \<subseteq> insert (k, v) (set obj)"
  by (induction obj) (auto split: if_splits)

lemma foldl_obj_set_sub:
  "set (foldl (\<lambda>obj (k, v). obj_set obj k v) obj kvs) \<subseteq> set obj \<union> set kvs"
proof (induction kvs arbitrary: obj)
  case Nil
  then show ?case by simp
next
  case (Cons kv kvs)
  obtain k v where kv: "kv = (k, v)" by (cases kv)
  show ?case
    using Cons[of "obj_set obj k v"] obj_set_sub[of obj k v] unfolding kv by auto
qed

lemma fromEntries_sub: "set (fromEntries kvs) \<subseteq> set kvs"
  using foldl_obj_set_sub[of "[]" kvs] by (simp add: fromEntries_def)

lemma obj_get_fromEntries: "obj_get (fromEntries kvs) k = map_of (rev kvs) k"
  unfolding fromEntries_def obj_get_foldl_obj_set
  by (simp add: obj_get_def split: option.splits)

lemma obj_get_fromEntries_mem: "obj_get (fromEntries kvs) k = Some v \<Longrightarrow> (k, v) \<in> set kvs"
  unfolding obj_get_fromEntries using map_of_SomeD by fastforce

lemma aggregate_group:
  assumes "obj_get (reconstruct D C raw) n = Some g"
  shows "\<exists>u val. (u, val) \<in> set (obsByClass (reconstruct_state C raw)) \<and> val \<noteq> []
     \<and> entries g = map (deref (store (reconstruct_state C raw))) (by_date_desc D val)"
proof -
  from obj_get_fromEntries_mem[OF assms[unfolded reconstruct_def sortedObs_of_def]]
  obtain uv where uv: "uv \<in> set (obsByClass (reconstruct_state C raw))" "snd uv \<noteq> []"
    and g: "(n, g) = (case uv of (u, val) \<Rightarrow>
               (let c = the (find (\<lambda>x. uuid x = u) (test_concepts C))
                in (display c,
                    \<lparr>entries = map (deref (store (reconstruct_state C raw))) (by_date_desc D val),
                     panel_type = class_display (concept_class c),
                     panel_uuid = u\<rparr>)))"
    by auto
  obtain u val where "uv = (u, val)" by (cases uv)
  then show ?thesis using uv g by (auto simp: Let_def)
qed

lemma addr_panels_nth:
  "j < length P \<Longrightarrow> addr_panels NM b P ! j = (parsed_base NM (P ! j))\<lparr>members := Some (b + j)\<rparr>"
proof (induction P arbitrary: b j)
  case Nil
  then show ?case by simp
next
  case (Cons p P)
  then show ?case by (cases j) simp_all
qed

lemma length_addr_panels [simp]: "length (addr_panels NM b P) = length P"
  by (induction P arbitrary: b) simp_all

lemma group_members:
  fixes C raw
  defines "TC \<equiv> test_concepts C"
  defines "T \<equiv> map uuid TC"
  defines "NM \<equiv> fromEntries (map (\<lambda>c. (uuid c, display c)) TC)"
  defines "MI \<equiv> extractMetaInformation TC"
  defines "P \<equiv> raw_panels T raw"
  assumes uv: "(u, val) \<in> set (obsByClass (reconstruct_state C raw))" and q: "q \<in> set val"
  shows "(\<exists>j < length P. q = (parsed_base NM (P ! j))\<lparr>members := Some j\<rparr>)
       \<or> (\<exists>e \<in> set (raw_singles T raw). q = parsed_single NM MI e)"
proof -
  let ?MR = "foldl (\<lambda>mr (k, v). obj_set mr k v) [] (panel_refs 0 P)"
  let ?singles = "map (parsed_single NM MI) (raw_singles T raw)"
  let ?all = "addr_panels NM 0 P @ filter (\<lambda>s. obj_get ?MR (obs_id s) = None) ?singles"
  from uv obtain vs where vs: "(u, vs) \<in> set (fromEntries (map (\<lambda>x. (x, [])) T))"
      and val: "val = vs @ filter (\<lambda>q. conceptClass q = u) ?all"
    unfolding reconstruct_state_eq TC_def[symmetric] T_def[symmetric] NM_def[symmetric]
      MI_def[symmetric] P_def[symmetric]
    by auto
  have "vs = []" using vs fromEntries_sub[of "map (\<lambda>x. (x, [])) T"] by auto
  then have "q \<in> set (filter (\<lambda>q. conceptClass q = u) ?all)" using q val by simp
  then have "q \<in> set ?all" by (simp only: set_filter mem_Collect_eq)
  then consider "q \<in> set (addr_panels NM 0 P)" | "q \<in> set ?singles" by auto
  then show ?thesis
  proof cases
    case 1
    then obtain j where "j < length P" "q = addr_panels NM 0 P ! j"
      by (auto simp: in_set_conv_nth)
    then show ?thesis by (auto simp: addr_panels_nth)
  next
    case 2
    then show ?thesis by auto
  qed
qed

lemma fill_length:
  assumes "inrange mr h"
  shows "length (fill mr h ss) = length h \<and> (\<forall>a < length h. length (fill mr h ss ! a) = length (h ! a))"
  using assms
proof (induction ss arbitrary: h)
  case Nil
  then show ?case by simp
next
  case (Cons s ss)
  show ?case
  proof (cases "obj_get mr (obs_id s)")
    case None
    then show ?thesis using Cons by simp
  next
    case (Some ai)
    obtain a' i' where ai: "ai = (a', i')" by (cases ai)
    have r: "a' < length h" "i' < length (h ! a')"
      using Cons.prems(1) Some ai by (auto simp: inrange_def)
    let ?h = "h[a' := array_set (h ! a') i' s]"
    have as: "array_set (h ! a') i' s = (h ! a')[i' := Some s]"
      using r by (simp add: array_set_def)
    have len: "length ?h = length h" "\<And>b. b < length h \<Longrightarrow> length (?h ! b) = length (h ! b)"
      using r by (simp_all add: as nth_list_update)
    have ir: "inrange mr ?h"
      using Cons.prems(1) len unfolding inrange_def by metis
    show ?thesis using Cons.IH[OF ir] len Some ai by simp
  qed
qed

lemma find_Some_D: "find P xs = Some x \<Longrightarrow> x \<in> set xs \<and> P x"
  by (induction xs) (auto split: if_splits)

lemma panel_entry_slots:
  fixes C raw
  defines "TC \<equiv> test_concepts C"
  defines "T \<equiv> map uuid TC"
  defines "NM \<equiv> fromEntries (map (\<lambda>c. (uuid c, display c)) TC)"
  defines "MI \<equiv> extractMetaInformation TC"
  assumes g: "obj_get (reconstruct D C raw) n = Some g" and x: "x \<in> set (entries g)"
    and refs: "hasMember (item x) = Some refs"
  shows "\<exists>ms. slots x = Some ms \<and> length ms = length refs
    \<and> (\<forall>i < length refs. \<forall>s. ms ! i = Some s \<longrightarrow>
          (\<exists>e \<in> set raw. hasMember e = None \<and> recognised T e \<and> s = parsed_single NM MI e
                \<and> obs_id e = member_key (refs ! i)))"
proof -
  define P where "P = raw_panels T raw"
  define singles where "singles = map (parsed_single NM MI) (raw_singles T raw)"
  define MR where "MR = foldl (\<lambda>mr (k, v). obj_set mr k v) [] (panel_refs 0 P)"
  define h1 :: "ObsRecord option list list"
    where "h1 = map (\<lambda>p. new_Array (length (slot_keys p))) P"
  let ?st = "reconstruct_state C raw"
  have st: "store ?st = fill MR h1 singles"
    unfolding reconstruct_state_eq TC_def[symmetric] T_def[symmetric] NM_def[symmetric]
      MI_def[symmetric] P_def[symmetric] singles_def[symmetric] MR_def[symmetric]
      h1_def[symmetric]
    by simp
  have ir: "inrange MR h1" unfolding MR_def h1_def by (rule inrange_after_first_loop)
  from aggregate_group[OF g] obtain u val where
    uv: "(u, val) \<in> set (obsByClass ?st)" and
    eg: "entries g = map (deref (store ?st)) (by_date_desc D val)" by blast
  from x obtain q where q: "q \<in> set val" and xq: "x = deref (store ?st) q"
    unfolding eg by (auto simp: by_date_desc_def)
  have hq: "hasMember q = Some refs" using refs xq by (simp add: deref_def)
  from group_members[OF uv q]
  have "(\<exists>j < length P. q = (parsed_base NM (P ! j))\<lparr>members := Some j\<rparr>)
       \<or> (\<exists>e \<in> set (raw_singles T raw). q = parsed_single NM MI e)"
    unfolding TC_def[symmetric] T_def[symmetric] NM_def[symmetric] MI_def[symmetric]
      P_def[symmetric] .
  moreover have "hasMember (parsed_single NM MI e) = None" if "e \<in> set (raw_singles T raw)" for e
    using that by (simp add: raw_singles_def is_panel_def parsed_single_def parsed_base_def)
  ultimately obtain j where j: "j < length P" and qj: "q = (parsed_base NM (P ! j))\<lparr>members := Some j\<rparr>"
    using hq by auto
  have hp: "hasMember (P ! j) = Some refs" using hq qj by (simp add: parsed_base_def)
  then have sk: "slot_keys (P ! j) = map member_key refs" by (simp add: slot_keys_def)
  have jl: "j < length h1" and hl: "length (h1 ! j) = length refs"
    using j sk by (simp_all add: h1_def new_Array_def)
  have sl: "slots x = Some (fill MR h1 singles ! j)"
    using xq qj st by (simp add: deref_def)
  have len: "length (fill MR h1 singles ! j) = length refs"
    using fill_length[OF ir, of singles] jl hl by simp
  have cell: "\<exists>e \<in> set raw. hasMember e = None \<and> recognised T e \<and> s = parsed_single NM MI e
                \<and> obs_id e = member_key (refs ! i)"
    if i: "i < length refs" and s: "fill MR h1 singles ! j ! i = Some s" for i s
  proof -
    have "h1 ! j ! i = None" using j i sk by (simp add: h1_def new_Array_def)
    then have "find (\<lambda>s. obj_get MR (obs_id s) = Some (j, i)) (rev singles) = Some s"
      using fill_slot[OF ir jl, of i singles] i hl s by (simp split: option.splits)
    from find_Some_D[OF this] have ss: "s \<in> set singles" and mr: "obj_get MR (obs_id s) = Some (j, i)"
      by simp_all
    from memberRefs_key[OF mr[unfolded MR_def]] have k: "obs_id s = member_key (refs ! i)"
      using sk i by simp
    from ss obtain e where e: "e \<in> set (raw_singles T raw)" and se: "s = parsed_single NM MI e"
      unfolding singles_def by auto
    have "e \<in> set raw" "hasMember e = None" "recognised T e"
      using e by (simp_all add: raw_singles_def is_panel_def)
    moreover have "obs_id e = member_key (refs ! i)"
      using k se by (simp add: parsed_single_def parsed_base_def)
    ultimately show ?thesis using se by blast
  qed
  show ?thesis using sl len cell by blast
qed

text \<open>
  The groups are keyed by identifiers of test concepts, so the lookup of a group's concept
  in \<open>sortedObs_of\<close> always finds one.
\<close>

lemma find_test_concept:
  assumes "(u, val) \<in> set (obsByClass (reconstruct_state C raw))"
  shows "find (\<lambda>x. uuid x = u) (test_concepts C) \<noteq> None"
proof -
  have "u \<in> fst ` set (fromEntries (map (\<lambda>x. (x, [] :: ObsRecord list)) (map uuid (test_concepts C))))"
    using assms unfolding reconstruct_state_eq by force
  then have "u \<in> set (map uuid (test_concepts C))"
    using fromEntries_sub[of "map (\<lambda>x. (x, [] :: ObsRecord list)) (map uuid (test_concepts C))"]
    by auto
  then show ?thesis by (auto simp: find_None_iff)
qed

subsection \<open>Member arrays\<close>

text \<open>
  Claim C6. For every panel entry of the aggregate that declares N member references,
  the member array has length N, and a declared member identifier that is the identifier
  of no single-test entry (an entry without members) of the raw list leaves the slot at
  its index absent.
\<close>

theorem reconstruct_members_length_and_gaps:
  assumes "obj_get (reconstruct D C raw) n = Some g" and "x \<in> set (entries g)"
    and "hasMember (item x) = Some refs"
  shows "\<exists>ms. slots x = Some ms \<and> length ms = length refs
    \<and> (\<forall>i < length refs.
          (\<forall>e \<in> set raw. hasMember e = None \<longrightarrow> obs_id e \<noteq> member_key (refs ! i))
          \<longrightarrow> ms ! i = None)"
proof -
  from panel_entry_slots[OF assms] obtain ms where
    ms: "slots x = Some ms" "length ms = length refs" and
    cell: "\<And>i s. i < length refs \<Longrightarrow> ms ! i = Some s \<Longrightarrow>
          \<exists>e \<in> set raw. hasMember e = None \<and> obs_id e = member_key (refs ! i)"
    by blast
  have "ms ! i = None"
    if "i < length refs" "\<forall>e \<in> set raw. hasMember e = None \<longrightarrow> obs_id e \<noteq> member_key (refs ! i)"
    for i
  proof (cases "ms ! i")
    case None
    then show ?thesis .
  next
    case (Some s)
    from cell[OF that(1) Some] that(2) show ?thesis by blast
  qed
  then show ?thesis using ms by blast
qed

theorem reconstruct_members_length_and_gaps_witness:
  "obj_get (reconstruct ex_Date_parse ex_concepts
       [ex_raw_panel ''a1'' ''2024-01-05T08:00'' [''Observation/b'', ''Observation/z''],
        ex_raw_single ''b'' ''2024-01-05T08:00'']) ''CBC'' \<noteq> None
   \<and> (\<exists>ms. slots (hd (entries (the (obj_get (reconstruct ex_Date_parse ex_concepts
       [ex_raw_panel ''a1'' ''2024-01-05T08:00'' [''Observation/b'', ''Observation/z''],
        ex_raw_single ''b'' ''2024-01-05T08:00'']) ''CBC'')))) = Some ms
        \<and> length ms = 2 \<and> ms ! 1 = None)"
proof -
  let ?raw = "[ex_raw_panel ''a1'' ''2024-01-05T08:00'' [''Observation/b'', ''Observation/z''],
        ex_raw_single ''b'' ''2024-01-05T08:00'']"
  let ?R = "reconstruct ex_Date_parse ex_concepts ?raw"
  let ?g = "the (obj_get ?R ''CBC'')"
  let ?x = "hd (entries ?g)"
  have ne: "obj_get ?R ''CBC'' \<noteq> None" by code_simp
  then have h1: "obj_get ?R ''CBC'' = Some ?g" by simp
  have h2: "?x \<in> set (entries ?g)" by code_simp
  have h3: "hasMember (item ?x) = Some [''Observation/b'', ''Observation/z'']" by code_simp
  have h4: "\<forall>e \<in> set ?raw. hasMember e = None \<longrightarrow>
       obs_id e \<noteq> member_key ([''Observation/b'', ''Observation/z''] ! 1)"
    by code_simp
  from reconstruct_members_length_and_gaps[OF h1 h2 h3] h4 ne
  show ?thesis by auto
qed

text \<open>
  Claim C10. Whatever sits in a member slot of a panel entry is an entry without members:
  a panel is never placed into a slot. So when a declared member identifier is the
  identifier of a raw entry that itself declares members (and of no entry without
  members), the slot for it stays absent.
\<close>

theorem reconstruct_never_nests_panels:
  assumes "obj_get (reconstruct D C raw) n = Some g" and "x \<in> set (entries g)"
    and "hasMember (item x) = Some refs"
  shows "\<exists>ms. slots x = Some ms
    \<and> (\<forall>i < length ms. \<forall>s. ms ! i = Some s \<longrightarrow> hasMember s = None \<and> members s = None)
    \<and> (\<forall>p \<in> set raw.
          hasMember p \<noteq> None \<and> (\<forall>e \<in> set raw. obs_id e = obs_id p \<longrightarrow> hasMember e \<noteq> None)
          \<longrightarrow> (\<forall>i < length refs. member_key (refs ! i) = obs_id p \<longrightarrow> ms ! i = None))"
proof -
  from panel_entry_slots[OF assms] obtain ms where
    ms: "slots x = Some ms" "length ms = length refs" and
    cell: "\<And>i s. i < length refs \<Longrightarrow> ms ! i = Some s \<Longrightarrow>
          \<exists>e \<in> set raw. hasMember e = None
             \<and> s = parsed_single (fromEntries (map (\<lambda>c. (uuid c, display c)) (test_concepts C)))
                     (extractMetaInformation (test_concepts C)) e
             \<and> obs_id e = member_key (refs ! i)"
    by blast
  have a: "hasMember s = None \<and> members s = None" if "i < length ms" "ms ! i = Some s" for i s
  proof -
    from cell[of i s] that ms obtain e where "hasMember e = None"
      "s = parsed_single (fromEntries (map (\<lambda>c. (uuid c, display c)) (test_concepts C)))
                     (extractMetaInformation (test_concepts C)) e"
      by auto
    then show ?thesis by (simp add: parsed_single_def parsed_base_def)
  qed
  have b: "ms ! i = None"
    if p: "p \<in> set raw" "\<forall>e \<in> set raw. obs_id e = obs_id p \<longrightarrow> hasMember e \<noteq> None"
      and i: "i < length refs" "member_key (refs ! i) = obs_id p" for p i
  proof (cases "ms ! i")
    case None
    then show ?thesis .
  next
    case (Some s)
    from cell[OF i(1) Some] obtain e where "e \<in> set raw" "hasMember e = None"
      "obs_id e = member_key (refs ! i)" by blast
    then show ?thesis using p(2) i(2) by auto
  qed
  show ?thesis using ms(1) a b by blast
qed

theorem reconstruct_never_nests_panels_witness:
  "obj_get (reconstruct ex_Date_parse ex_concepts
       [ex_raw_panel ''a1'' ''2024-01-05T14:30'' [''Observation/a2''],
        ex_raw_panel ''a2'' ''2024-01-05T08:00'' [''Observation/b'']]) ''CBC'' \<noteq> None
   \<and> obs_id (item (hd (entries (the (obj_get (reconstruct ex_Date_parse ex_concepts
       [ex_raw_panel ''a1'' ''2024-01-05T14:30'' [''Observation/a2''],
        ex_raw_panel ''a2'' ''2024-01-05T08:00'' [''Observation/b'']]) ''CBC''))))) = ''a1''
   \<and> (\<exists>ms. slots (hd (entries (the (obj_get (reconstruct ex_Date_parse ex_concepts
       [ex_raw_panel ''a1'' ''2024-01-05T14:30'' [''Observation/a2''],
        ex_raw_panel ''a2'' ''2024-01-05T08:00'' [''Observation/b'']]) ''CBC'')))) = Some ms
        \<and> ms ! 0 = None)"
proof -
  let ?p = "ex_raw_panel ''a2'' ''2024-01-05T08:00'' [''Observation/b'']"
  let ?raw = "[ex_raw_panel ''a1'' ''2024-01-05T14:30'' [''Observation/a2''], ?p]"
  let ?R = "reconstruct ex_Date_parse ex_concepts ?raw"
  let ?g = "the (obj_get ?R ''CBC'')"
  let ?x = "hd (entries ?g)"
  have ne: "obj_get ?R ''CBC'' \<noteq> None" by code_simp
  then have h1: "obj_get ?R ''CBC'' = Some ?g" by simp
  have h2: "?x \<in> set (entries ?g)" by code_simp
  have h3: "hasMember (item ?x) = Some [''Observation/a2'']" by code_simp
  have id: "obs_id (item ?x) = ''a1''" by code_simp
  have h4: "?p \<in> set ?raw" by simp
  have h5: "hasMember ?p \<noteq> None \<and> (\<forall>e \<in> set ?raw. obs_id e = obs_id ?p \<longrightarrow> hasMember e \<noteq> None)"
    by code_simp
  have h6: "(0::nat) < length [''Observation/a2''] \<and> member_key ([''Observation/a2''] ! 0) = obs_id ?p"
    by code_simp
  from reconstruct_never_nests_panels[OF h1 h2 h3] obtain ms where
    "slots ?x = Some ms" and
    "\<forall>p \<in> set ?raw.
          hasMember p \<noteq> None \<and> (\<forall>e \<in> set ?raw. obs_id e = obs_id p \<longrightarrow> hasMember e \<noteq> None)
          \<longrightarrow> (\<forall>i < length [''Observation/a2'']. member_key ([''Observation/a2''] ! i) = obs_id p \<longrightarrow> ms ! i = None)"
    by blast
  with h4 h5 h6 have "slots ?x = Some ms \<and> ms ! 0 = None" by blast
  then show ?thesis using ne id by blast
qed

subsection \<open>Groups\<close>

lemma deref_time [simp]: "effectiveDateTime (item (deref st q)) = effectiveDateTime q"
  by (simp add: deref_def)

text \<open>
  Claim C7, as the code has it. Every group of the aggregate has at least one entry, and
  its entries are in descending order of their timestamps, entries with equal timestamps
  being allowed next to each other; the order is strict when the timestamps within the
  group are pairwise distinct.
\<close>

theorem reconstruct_groups_sorted_nonempty:
  assumes "obj_get (reconstruct D C raw) n = Some g"
  shows "entries g \<noteq> []
    \<and> sorted_wrt (\<lambda>a b. D (effectiveDateTime (item b)) \<le> D (effectiveDateTime (item a)))
        (entries g)
    \<and> (distinct (map (\<lambda>x. D (effectiveDateTime (item x))) (entries g))
        \<longrightarrow> sorted_wrt (\<lambda>a b. D (effectiveDateTime (item b)) < D (effectiveDateTime (item a)))
              (entries g))"
proof -
  from aggregate_group[OF assms] obtain u val where
    ne: "val \<noteq> []" and
    eg: "entries g = map (deref (store (reconstruct_state C raw))) (by_date_desc D val)" by blast
  let ?k = "\<lambda>x. - D (effectiveDateTime (item x))"
  have "length (entries g) = length val" unfolding eg by (simp add: by_date_desc_def)
  then have 1: "entries g \<noteq> []" using ne by auto
  have "map ?k (entries g) = map (\<lambda>ent. - D (effectiveDateTime ent)) (by_date_desc D val)"
    unfolding eg by (simp add: comp_def)
  then have s: "sorted (map ?k (entries g))"
    by (simp add: by_date_desc_def)
  then have 2: "sorted_wrt (\<lambda>a b. D (effectiveDateTime (item b)) \<le> D (effectiveDateTime (item a)))
        (entries g)"
    by (simp add: sorted_map)
  have 3: "sorted_wrt (\<lambda>a b. D (effectiveDateTime (item b)) < D (effectiveDateTime (item a)))
              (entries g)"
    if d: "distinct (map (\<lambda>x. D (effectiveDateTime (item x))) (entries g))"
  proof -
    have "map ?k (entries g) = map uminus (map (\<lambda>x. D (effectiveDateTime (item x))) (entries g))"
      by (simp add: comp_def)
    then have "distinct (map ?k (entries g))"
      using d by (simp add: distinct_map inj_on_def)
    then have "sorted_wrt (<) (map ?k (entries g))"
      using s by (simp add: strict_sorted_iff)
    then show ?thesis by (simp add: sorted_wrt_map)
  qed
  show ?thesis using 1 2 3 by blast
qed

theorem reconstruct_groups_sorted_nonempty_witness:
  "obj_get (reconstruct ex_Date_parse ex_concepts
       [ex_raw_single ''b'' ''2024-01-05T08:00'', ex_raw_single ''c'' ''2024-01-05T14:30''])
     ''Hgb'' \<noteq> None
   \<and> distinct (map (\<lambda>x. ex_Date_parse (effectiveDateTime (item x)))
        (entries (the (obj_get (reconstruct ex_Date_parse ex_concepts
           [ex_raw_single ''b'' ''2024-01-05T08:00'', ex_raw_single ''c'' ''2024-01-05T14:30''])
         ''Hgb''))))
   \<and> map (obs_id \<circ> item)
        (entries (the (obj_get (reconstruct ex_Date_parse ex_concepts
           [ex_raw_single ''b'' ''2024-01-05T08:00'', ex_raw_single ''c'' ''2024-01-05T14:30''])
         ''Hgb''))) = [''c'', ''b'']
   \<and> sorted_wrt (\<lambda>a b. ex_Date_parse (effectiveDateTime (item b))
                        < ex_Date_parse (effectiveDateTime (item a)))
        (entries (the (obj_get (reconstruct ex_Date_parse ex_concepts
           [ex_raw_single ''b'' ''2024-01-05T08:00'', ex_raw_single ''c'' ''2024-01-05T14:30''])
         ''Hgb'')))"
proof -
  let ?R = "reconstruct ex_Date_parse ex_concepts
       [ex_raw_single ''b'' ''2024-01-05T08:00'', ex_raw_single ''c'' ''2024-01-05T14:30'']"
  let ?g = "the (obj_get ?R ''Hgb'')"
  have ne: "obj_get ?R ''Hgb'' \<noteq> None" by code_simp
  then have h1: "obj_get ?R ''Hgb'' = Some ?g" by simp
  have d: "distinct (map (\<lambda>x. ex_Date_parse (effectiveDateTime (item x))) (entries ?g))"
    by code_simp
  have ids: "map (obs_id \<circ> item) (entries ?g) = [''c'', ''b'']" by code_simp
  from reconstruct_groups_sorted_nonempty[OF h1] d ne ids
  show ?thesis by blast
qed

text \<open>
  The claim as stated fails: two results of the same test with the same timestamp are in
  one group, which then is not strictly ordered.
\<close>

theorem reconstruct_equal_timestamps_counterexample:
  "obj_get (reconstruct ex_Date_parse ex_concepts
       [ex_raw_single ''b'' ''2024-01-05T08:00'', ex_raw_single ''c'' ''2024-01-05T08:00''])
     ''Hgb'' \<noteq> None
   \<and> map (ex_Date_parse \<circ> effectiveDateTime \<circ> item)
        (entries (the (obj_get (reconstruct ex_Date_parse ex_concepts
           [ex_raw_single ''b'' ''2024-01-05T08:00'', ex_raw_single ''c'' ''2024-01-05T08:00''])
         ''Hgb''))) = [1704441600000, 1704441600000]
   \<and> \<not> sorted_wrt (>)
        (map (ex_Date_parse \<circ> effectiveDateTime \<circ> item)
           (entries (the (obj_get (reconstruct ex_Date_parse ex_concepts
              [ex_raw_single ''b'' ''2024-01-05T08:00'', ex_raw_single ''c'' ''2024-01-05T08:00''])
            ''Hgb''))))"
  by code_simp

subsection \<open>Order independence\<close>

lemma insort_key_map:
  "insort_key f (g x) (map g xs) = map g (insort_key (\<lambda>y. f (g y)) x xs)"
  by (induction xs) simp_all

lemma sort_key_map:
  "sort_key f (map g xs) = map g (sort_key (\<lambda>y. f (g y)) xs)"
  by (induction xs) (simp_all add: insort_key_map)

lemma map_fst_panel_refs: "map fst (panel_refs b P) = concat (map slot_keys P)"
proof (induction P arbitrary: b)
  case Nil
  then show ?case by simp
next
  case (Cons p P)
  have "map fst (map (\<lambda>(k, i). (k, (b, i))) (zip (slot_keys p) [0 ..< length (slot_keys p)]))
      = slot_keys p"
    by (simp add: case_prod_unfold comp_def)
  then show ?case using Cons by simp
qed

lemma memberRefs_map_of:
  "obj_get (foldl (\<lambda>mr (k, v). obj_set mr k v) [] kvs) k = map_of (rev kvs) k"
  unfolding obj_get_foldl_obj_set by (simp add: obj_get_def split: option.splits)

lemma memberRefs_None:
  "obj_get (foldl (\<lambda>mr (k, v). obj_set mr k v) [] (panel_refs 0 P)) k = None
     \<longleftrightarrow> k \<notin> set (concat (map slot_keys P))"
proof -
  have "map_of (rev (panel_refs 0 P)) k = None \<longleftrightarrow> k \<notin> fst ` set (panel_refs 0 P)"
    by (simp add: map_of_eq_None_iff)
  also have "fst ` set (panel_refs 0 P) = set (concat (map slot_keys P))"
    using map_fst_panel_refs[of 0 P] by (metis set_map)
  finally show ?thesis
    unfolding memberRefs_map_of .
qed

lemma memberRefs_unique:
  assumes "distinct (concat (map slot_keys P))"
  shows "obj_get (foldl (\<lambda>mr (k, v). obj_set mr k v) [] (panel_refs 0 P)) k = Some (a, i)
     \<longleftrightarrow> a < length P \<and> i < length (slot_keys (P ! a)) \<and> k = slot_keys (P ! a) ! i"
proof -
  have d: "distinct (map fst (rev (panel_refs 0 P)))"
    using assms by (simp add: map_fst_panel_refs rev_map[symmetric])
  have "map_of (rev (panel_refs 0 P)) k = Some (a, i) \<longleftrightarrow> (k, (a, i)) \<in> set (panel_refs 0 P)"
    using map_of_eq_Some_iff[OF d] by simp
  then show ?thesis
    unfolding memberRefs_map_of panel_refs_set by simp
qed

lemma find_unique:
  assumes "distinct (map f xs)"
  shows "find (\<lambda>s. f s = k) xs = Some x \<longleftrightarrow> x \<in> set xs \<and> f x = k"
  using assms
proof (induction xs)
  case Nil
  then show ?case by simp
next
  case (Cons y ys)
  then show ?case by (auto simp: image_iff)
qed

lemma option_eqI: "(\<And>v. a = Some v \<longleftrightarrow> b = Some v) \<Longrightarrow> a = b"
  by (cases a; cases b) auto

lemma find_unique_perm:
  assumes "distinct (map f xs)" "mset ys = mset xs"
  shows "find (\<lambda>s. f s = k) ys = find (\<lambda>s. f s = k) xs"
proof (rule option_eqI)
  fix v
  have "mset (map f ys) = mset (map f xs)" using assms(2) by simp
  then have dy: "distinct (map f ys)" using assms(1) mset_eq_imp_distinct_iff by blast
  have "set ys = set xs" using assms(2) by (rule mset_eq_setD)
  then show "find (\<lambda>s. f s = k) ys = Some v \<longleftrightarrow> find (\<lambda>s. f s = k) xs = Some v"
    unfolding find_unique[OF assms(1)] find_unique[OF dy] by simp
qed

lemma parsed_base_members [simp]: "(parsed_base NM e)\<lparr>members := None\<rparr> = parsed_base NM e"
  by (simp add: parsed_base_def)

lemma parsed_single_members [simp]: "(parsed_single NM MI e)\<lparr>members := None\<rparr> = parsed_single NM MI e"
  by (simp add: parsed_single_def parsed_base_def)

lemma obs_id_parsed_single [simp]: "obs_id (parsed_single NM MI e) = obs_id e"
  by (simp add: parsed_single_def parsed_base_def)

lemma deref_panels:
  fixes P :: "FhirObs list" and singles :: "ObsRecord list"
  defines "MR \<equiv> foldl (\<lambda>mr (k, v). obj_set mr k v) [] (panel_refs 0 P)"
  defines "h1 \<equiv> map (\<lambda>p. new_Array (length (slot_keys p))) P :: ObsRecord option list list"
  assumes H1: "distinct (map obs_id singles)" and H2: "distinct (concat (map slot_keys P))"
    and pan: "\<forall>p \<in> set P. is_panel p"
  shows "map (deref (fill MR h1 singles)) (addr_panels NM 0 P)
       = map (resolved_entry NM MI singles) P"
proof (rule nth_equalityI)
  show "length (map (deref (fill MR h1 singles)) (addr_panels NM 0 P))
      = length (map (resolved_entry NM MI singles) P)" by simp
next
  fix j assume "j < length (map (deref (fill MR h1 singles)) (addr_panels NM 0 P))"
  then have j: "j < length P" by simp
  have ir: "inrange MR h1" unfolding MR_def h1_def by (rule inrange_after_first_loop)
  have jl: "j < length h1" and hl: "length (h1 ! j) = length (slot_keys (P ! j))"
    using j by (simp_all add: h1_def new_Array_def)
  have len: "length (fill MR h1 singles ! j) = length (slot_keys (P ! j))"
    using fill_length[OF ir, of singles] jl hl by simp
  have arr: "fill MR h1 singles ! j = map (by_id singles) (slot_keys (P ! j))"
  proof (rule nth_equalityI)
    show "length (fill MR h1 singles ! j) = length (map (by_id singles) (slot_keys (P ! j)))"
      using len by simp
  next
    fix i assume "i < length (fill MR h1 singles ! j)"
    then have i: "i < length (slot_keys (P ! j))" using len by simp
    have "h1 ! j ! i = None" using j i by (simp add: h1_def new_Array_def)
    then have "fill MR h1 singles ! j ! i
        = find (\<lambda>s. obj_get MR (obs_id s) = Some (j, i)) (rev singles)"
      using fill_slot[OF ir jl, of i singles] i hl by (simp split: option.splits)
    also have "(\<lambda>s. obj_get MR (obs_id s) = Some (j, i)) = (\<lambda>s. obs_id s = slot_keys (P ! j) ! i)"
      unfolding MR_def memberRefs_unique[OF H2] using j i by simp
    also have "find (\<lambda>s. obs_id s = slot_keys (P ! j) ! i) (rev singles)
        = find (\<lambda>s. obs_id s = slot_keys (P ! j) ! i) singles"
      by (rule find_unique_perm[OF H1]) simp
    finally show "fill MR h1 singles ! j ! i = map (by_id singles) (slot_keys (P ! j)) ! i"
      using i by (simp add: by_id_def)
  qed
  have "is_panel (P ! j)" using pan j by simp
  then show "map (deref (fill MR h1 singles)) (addr_panels NM 0 P) ! j
      = map (resolved_entry NM MI singles) P ! j"
    using j arr by (simp add: addr_panels_nth deref_def resolved_entry_def)
qed

lemma deref_singles:
  assumes "\<forall>e \<in> set Sg. \<not> is_panel e"
  shows "map (deref st) (map (parsed_single NM MI) Sg) = map (resolved_entry NM MI singles) Sg"
  using assms by (induction Sg) (simp_all add: deref_def resolved_entry_def parsed_single_def parsed_base_def)

lemma mset_filter_split:
  "mset (filter P xs) + mset (filter (\<lambda>x. \<not> P x \<and> Q x) xs) = mset (filter (\<lambda>x. P x \<or> Q x) xs)"
  by (induction xs) auto

lemma conceptClass_deref [simp]: "conceptClass (item (deref st q)) = conceptClass q"
  by (simp add: deref_def)

lemma find_self:
  assumes "distinct (map f xs)" "x \<in> set xs"
  shows "find (\<lambda>y. f y = f x) xs = Some x"
  using find_unique[OF assms(1), of "f x" x] assms(2) by simp

lemma resolved_all:
  fixes C raw
  defines "TC \<equiv> test_concepts C"
  defines "T \<equiv> map uuid TC"
  defines "NM \<equiv> fromEntries (map (\<lambda>c. (uuid c, display c)) TC)"
  defines "MI \<equiv> extractMetaInformation TC"
  defines "P \<equiv> raw_panels T raw"
  defines "singles \<equiv> map (parsed_single NM MI) (raw_singles T raw)"
  defines "MR \<equiv> foldl (\<lambda>mr (k, v). obj_set mr k v) [] (panel_refs 0 P)"
  assumes H1: "distinct (map obs_id (raw_singles T raw))"
    and H2: "distinct (concat (map slot_keys (raw_panels T raw)))"
  shows "map (deref (store (reconstruct_state C raw)))
           (addr_panels NM 0 P @ filter (\<lambda>s. obj_get MR (obs_id s) = None) singles)
       = map (resolved_entry NM MI singles)
           (P @ filter (\<lambda>e. obs_id e \<notin> declared_keys T raw) (raw_singles T raw))"
proof -
  let ?h1 = "map (\<lambda>p. new_Array (length (slot_keys p))) P :: ObsRecord option list list"
  let ?st = "fill MR ?h1 singles"
  have st: "store (reconstruct_state C raw) = ?st"
    unfolding reconstruct_state_eq TC_def[symmetric] T_def[symmetric] NM_def[symmetric]
      MI_def[symmetric] P_def[symmetric] singles_def[symmetric] MR_def[symmetric]
    by simp
  have ds: "distinct (map obs_id singles)"
    using H1 by (simp add: singles_def comp_def)
  have pan: "\<forall>p \<in> set P. is_panel p" by (simp add: P_def raw_panels_def)
  have a: "map (deref ?st) (addr_panels NM 0 P) = map (resolved_entry NM MI singles) P"
    unfolding MR_def by (rule deref_panels[OF ds H2[folded P_def] pan])
  have f: "filter (\<lambda>s. obj_get MR (obs_id s) = None) singles
      = map (parsed_single NM MI)
          (filter (\<lambda>e. obs_id e \<notin> declared_keys T raw) (raw_singles T raw))"
    unfolding singles_def filter_map MR_def
    by (simp add: comp_def memberRefs_None declared_keys_def P_def)
  have np: "\<forall>e \<in> set (filter (\<lambda>e. obs_id e \<notin> declared_keys T raw) (raw_singles T raw)). \<not> is_panel e"
    by (simp add: raw_singles_def)
  have b: "map (deref ?st) (filter (\<lambda>s. obj_get MR (obs_id s) = None) singles)
      = map (resolved_entry NM MI singles)
          (filter (\<lambda>e. obs_id e \<notin> declared_keys T raw) (raw_singles T raw))"
    unfolding f by (rule deref_singles[OF np])
  show ?thesis unfolding st map_append a b ..
qed

lemma aggregate_char:
  fixes D C raw
  defines "TC \<equiv> test_concepts C"
  defines "T \<equiv> map uuid TC"
  defines "NM \<equiv> fromEntries (map (\<lambda>c. (uuid c, display c)) TC)"
  defines "MI \<equiv> extractMetaInformation TC"
  defines "singles \<equiv> map (parsed_single NM MI) (raw_singles T raw)"
  defines "R \<equiv> map (resolved_entry NM MI singles)
                 (raw_panels T raw
                  @ filter (\<lambda>e. obs_id e \<notin> declared_keys T raw) (raw_singles T raw))"
  assumes Hc1: "distinct (map uuid TC)" and Hc2: "distinct (map display TC)"
    and H1: "distinct (map obs_id (raw_singles T raw))"
    and H2: "distinct (concat (map slot_keys (raw_panels T raw)))"
  shows "obj_get (reconstruct D C raw) n = Some g \<longleftrightarrow>
    (\<exists>c \<in> set TC. display c = n \<and> filter (\<lambda>x. conceptClass (item x) = uuid c) R \<noteq> []
       \<and> g = \<lparr>entries = sort_key (\<lambda>x. - D (effectiveDateTime (item x)))
                          (filter (\<lambda>x. conceptClass (item x) = uuid c) R),
               panel_type = class_display (concept_class c), panel_uuid = uuid c\<rparr>)"
proof -
  define P where "P = raw_panels T raw"
  define MR where "MR = foldl (\<lambda>mr (k, v). obj_set mr k v) [] (panel_refs 0 P)"
  define everything where
    "everything = addr_panels NM 0 P @ filter (\<lambda>s. obj_get MR (obs_id s) = None) singles"
  define st where "st = store (reconstruct_state C raw)"
  define grp where "grp u = filter (\<lambda>q. conceptClass q = u) everything" for u
  define G where "G c = \<lparr>entries = sort_key (\<lambda>x. - D (effectiveDateTime (item x)))
                          (filter (\<lambda>x. conceptClass (item x) = uuid c) R),
               panel_type = class_display (concept_class c), panel_uuid = uuid c\<rparr>"
    for c :: ConceptRecord
  have RR: "map (deref st) everything = R"
    unfolding st_def everything_def MR_def P_def R_def singles_def NM_def MI_def T_def TC_def
    by (rule resolved_all[OF H1[unfolded T_def TC_def] H2[unfolded T_def TC_def]])
  have grpR: "map (deref st) (grp u) = filter (\<lambda>x. conceptClass (item x) = u) R" for u
    unfolding grp_def RR[symmetric] filter_map by (simp add: comp_def)
  have ent: "map (deref st) (by_date_desc D (grp u))
      = sort_key (\<lambda>x. - D (effectiveDateTime (item x))) (filter (\<lambda>x. conceptClass (item x) = u) R)"
    for u
    unfolding grpR[symmetric] sort_key_map by (simp add: by_date_desc_def)
  have emp: "grp u \<noteq> [] \<longleftrightarrow> filter (\<lambda>x. conceptClass (item x) = u) R \<noteq> []" for u
    unfolding grpR[symmetric] by simp
  have obc0: "fromEntries (map (\<lambda>x. (x, [])) T) = map (\<lambda>x. (x, [] :: ObsRecord list)) T"
    using Hc1 by (intro fromEntries_distinct) (simp add: T_def comp_def)
  have obc: "obsByClass (reconstruct_state C raw) = map (\<lambda>c. (uuid c, grp (uuid c))) TC"
    unfolding reconstruct_state_eq TC_def[symmetric] T_def[symmetric] NM_def[symmetric]
      MI_def[symmetric] P_def[symmetric] singles_def[symmetric] MR_def[symmetric]
      everything_def[symmetric] obc0
    by (simp add: T_def grp_def comp_def)
  have kvs: "map (\<lambda>(u, val).
               (let c = the (find (\<lambda>x. uuid x = u) TC)
                in (display c,
                    \<lparr>entries = map (deref st) (by_date_desc D val),
                     panel_type = class_display (concept_class c),
                     panel_uuid = u\<rparr>)))
          (filter (\<lambda>x. snd x \<noteq> []) (map (\<lambda>c. (uuid c, grp (uuid c))) TC))
      = map (\<lambda>c. (display c, G c))
          (filter (\<lambda>c. filter (\<lambda>x. conceptClass (item x) = uuid c) R \<noteq> []) TC)"
    unfolding filter_map map_map
  proof (rule map_cong)
    show "filter ((\<lambda>x. snd x \<noteq> []) \<circ> (\<lambda>c. (uuid c, grp (uuid c)))) TC
        = filter (\<lambda>c. filter (\<lambda>x. conceptClass (item x) = uuid c) R \<noteq> []) TC"
      by (simp add: comp_def emp)
  next
    fix c assume "c \<in> set (filter (\<lambda>c. filter (\<lambda>x. conceptClass (item x) = uuid c) R \<noteq> []) TC)"
    then have "c \<in> set TC" by simp
    then have "find (\<lambda>x. uuid x = uuid c) TC = Some c" by (rule find_self[OF Hc1])
    then show "((\<lambda>(u, val).
               (let c = the (find (\<lambda>x. uuid x = u) TC)
                in (display c,
                    \<lparr>entries = map (deref st) (by_date_desc D val),
                     panel_type = class_display (concept_class c),
                     panel_uuid = u\<rparr>))) \<circ> (\<lambda>c. (uuid c, grp (uuid c)))) c
        = (display c, G c)"
      by (simp add: G_def ent)
  qed
  have dk: "distinct (map fst (rev (map (\<lambda>c. (display c, G c))
          (filter (\<lambda>c. filter (\<lambda>x. conceptClass (item x) = uuid c) R \<noteq> []) TC))))"
    using Hc2 by (simp add: rev_map[symmetric] comp_def distinct_map_filter)
  have "obj_get (reconstruct D C raw) n = Some g \<longleftrightarrow>
     (n, g) \<in> set (map (\<lambda>c. (display c, G c))
          (filter (\<lambda>c. filter (\<lambda>x. conceptClass (item x) = uuid c) R \<noteq> []) TC))"
    unfolding reconstruct_def sortedObs_of_def TC_def[symmetric] st_def[symmetric] obc kvs
      obj_get_fromEntries
    using map_of_eq_Some_iff[OF dk] by simp
  then show ?thesis unfolding G_def by auto
qed

lemma mset_top_level:
  "mset (raw_panels T raw @ filter (\<lambda>e. obs_id e \<notin> declared_keys T raw) (raw_singles T raw))
     = mset (top_level T raw)"
proof -
  let ?F = "filter (recognised T) raw"
  have "filter (\<lambda>e. obs_id e \<notin> declared_keys T raw) (raw_singles T raw)
      = filter (\<lambda>e. \<not> is_panel e \<and> obs_id e \<notin> declared_keys T raw) ?F"
    unfolding raw_singles_def filter_filter by (rule filter_cong) auto
  then show ?thesis
    using mset_filter_split[of is_panel ?F "\<lambda>e. obs_id e \<notin> declared_keys T raw"]
    by (simp add: raw_panels_def top_level_def)
qed

lemma map_of_perm:
  assumes "distinct (map fst xs)" "mset ys = mset xs"
  shows "map_of ys = map_of xs"
proof -
  have "mset (map fst ys) = mset (map fst xs)" using assms(2) by simp
  then have "distinct (map fst ys)" using assms(1) mset_eq_imp_distinct_iff by blast
  moreover have "set ys = set xs" using assms(2) by (rule mset_eq_setD)
  ultimately show ?thesis using assms(1) by (simp add: map_of_inject_set)
qed

lemma obj_get_fromEntries_perm:
  assumes "distinct (map fst xs)" "mset ys = mset xs"
  shows "obj_get (fromEntries ys) k = obj_get (fromEntries xs) k"
proof -
  have "map_of (rev ys) = map_of xs"
    by (rule map_of_perm[OF assms(1)]) (simp add: assms(2))
  moreover have "map_of (rev xs) = map_of xs"
    by (rule map_of_perm[OF assms(1)]) simp
  ultimately show ?thesis by (simp add: obj_get_fromEntries)
qed

lemma parsed_base_cong:
  "(\<And>k. obj_get NM' k = obj_get NM k) \<Longrightarrow> parsed_base NM' e = parsed_base NM e"
  by (simp add: parsed_base_def)

lemma parsed_single_cong:
  "(\<And>k. obj_get NM' k = obj_get NM k) \<Longrightarrow> (\<And>k. obj_get MI' k = obj_get MI k)
     \<Longrightarrow> parsed_single NM' MI' e = parsed_single NM MI e"
  by (simp add: parsed_single_def parsed_base_def)

lemma recognised_cong: "set T' = set T \<Longrightarrow> recognised T' = recognised T"
  by (simp add: recognised_def fun_eq_iff)

lemma distinct_concat_perm:
  assumes "mset xss = mset yss"
  shows "distinct (concat xss) \<longleftrightarrow> distinct (concat yss)"
proof -
  have "mset (concat xss) = mset (concat yss)"
    unfolding mset_concat using assms by (metis mset_map sum_mset_sum_list)
  then show ?thesis by (rule mset_eq_imp_distinct_iff)
qed

lemma set_concat_perm:
  assumes "mset xss = mset yss"
  shows "set (concat xss) = set (concat yss)"
  using mset_eq_setD[OF assms] by simp

lemma set_spread_set: "distinct (set_spread seen xs) \<and> set (set_spread seen xs) = set xs - set seen"
  by (induction seen xs rule: set_spread.induct) auto

lemma set_spread_perm:
  assumes "mset ys = mset xs"
  shows "mset (set_spread [] ys) = mset (set_spread [] xs)"
proof -
  have "set ys = set xs" using assms by (rule mset_eq_setD)
  then have s: "set (set_spread [] ys) = set (set_spread [] xs)"
    by (simp add: set_spread_set)
  have dx: "distinct (set_spread [] xs)" and dy: "distinct (set_spread [] ys)"
    by (simp_all add: set_spread_set)
  show ?thesis
    using s set_eq_iff_mset_eq_distinct[OF dy dx] by blast
qed

text \<open>
  Claim C2, as the code has it. Reconstruction does not depend on the order of the raw
  entries, nor on the order in which the concepts were loaded, when identifiers and
  timestamps are unique: the test concepts have pairwise distinct identifiers and display
  names and, among the recognised raw entries, the single-test entries have pairwise
  distinct identifiers, no member key is declared by two member slots, and the entries
  that are put into groups (the panels, and the single tests that no panel declares) have
  pairwise distinct timestamps within one concept. Then every permutation of the raw list
  and of the concept list yields the same aggregate: the same keys with identical sorted
  groups. A panel and its member may come in either order.
\<close>

theorem reconstruct_order_independent:
  fixes D C raw C' raw'
  defines "T \<equiv> map uuid (test_concepts C)"
  assumes perm: "mset raw' = mset raw" and permC: "mset C' = mset C"
    and Hc1: "distinct (map uuid (test_concepts C))"
    and Hc2: "distinct (map display (test_concepts C))"
    and H1: "distinct (map obs_id (raw_singles T raw))"
    and H2: "distinct (concat (map slot_keys (raw_panels T raw)))"
    and H3: "\<forall>e1 \<in> set (top_level T raw). \<forall>e2 \<in> set (top_level T raw).
               code e1 = code e2 \<and> D (effectiveDateTime e1) = D (effectiveDateTime e2)
               \<longrightarrow> e1 = e2"
  shows "obj_get (reconstruct D C' raw') n = obj_get (reconstruct D C raw) n"
proof (rule option_eqI)
  fix g
  let ?TC = "test_concepts C" and ?TC' = "test_concepts C'"
  let ?T' = "map uuid ?TC'"
  let ?NM = "fromEntries (map (\<lambda>c. (uuid c, display c)) ?TC)"
  let ?NM' = "fromEntries (map (\<lambda>c. (uuid c, display c)) ?TC')"
  let ?MI = "extractMetaInformation ?TC" and ?MI' = "extractMetaInformation ?TC'"
  let ?singles = "map (parsed_single ?NM ?MI) (raw_singles (map uuid ?TC) raw)"
  let ?singles' = "map (parsed_single ?NM' ?MI') (raw_singles ?T' raw')"
  let ?L = "raw_panels (map uuid ?TC) raw
            @ filter (\<lambda>e. obs_id e \<notin> declared_keys (map uuid ?TC) raw) (raw_singles (map uuid ?TC) raw)"
  let ?L' = "raw_panels ?T' raw'
            @ filter (\<lambda>e. obs_id e \<notin> declared_keys ?T' raw') (raw_singles ?T' raw')"
  let ?R = "map (resolved_entry ?NM ?MI ?singles) ?L"
  let ?R' = "map (resolved_entry ?NM' ?MI' ?singles') ?L'"
  let ?k = "\<lambda>x. - D (effectiveDateTime (item x))"
  have T: "T = map uuid ?TC" by (simp add: T_def)
  have mTC: "mset ?TC' = mset ?TC" using permC by (simp add: test_concepts_def)
  then have sTC: "set ?TC' = set ?TC" by (rule mset_eq_setD)
  have mT: "mset ?T' = mset T" using mTC by (simp add: T)
  then have rec: "recognised ?T' = recognised T"
    by (intro recognised_cong mset_eq_setD)
  have mP: "mset (raw_panels ?T' raw') = mset (raw_panels T raw)"
    unfolding raw_panels_def rec by (simp add: perm)
  have mS: "mset (raw_singles ?T' raw') = mset (raw_singles T raw)"
    unfolding raw_singles_def rec by (simp add: perm)
  have mK: "mset (map slot_keys (raw_panels ?T' raw')) = mset (map slot_keys (raw_panels T raw))"
    using mP by simp
  have dk: "declared_keys ?T' raw' = declared_keys T raw"
    unfolding declared_keys_def by (rule set_concat_perm[OF mK])
  have mtl: "mset (top_level ?T' raw') = mset (top_level T raw)"
    unfolding top_level_def rec dk by (simp add: perm)
  have Hc1': "distinct (map uuid ?TC')"
    using Hc1 mTC by (metis mset_eq_imp_distinct_iff mset_map)
  have Hc2': "distinct (map display ?TC')"
    using Hc2 mTC by (metis mset_eq_imp_distinct_iff mset_map)
  have H1': "distinct (map obs_id (raw_singles ?T' raw'))"
    using H1 mS by (metis mset_eq_imp_distinct_iff mset_map)
  have H2': "distinct (concat (map slot_keys (raw_panels ?T' raw')))"
    using H2 distinct_concat_perm[OF mK] by simp
  have nm: "obj_get ?NM' k = obj_get ?NM k" for k
    by (rule obj_get_fromEntries_perm) (simp_all add: comp_def Hc1 mTC)
  have mi: "obj_get ?MI' k = obj_get ?MI k" for k
    unfolding extractMetaInformation_def
    by (rule obj_get_fromEntries_perm) (simp_all add: comp_def Hc1 mTC)
  have ps: "parsed_single ?NM' ?MI' = parsed_single ?NM ?MI"
    by (rule ext) (rule parsed_single_cong[OF nm mi])
  have pb: "parsed_base ?NM' = parsed_base ?NM"
    by (rule ext) (rule parsed_base_cong[OF nm])
  let ?singles'' = "map (parsed_single ?NM ?MI) (raw_singles ?T' raw')"
  have msg: "mset ?singles'' = mset ?singles"
    using mS by (simp add: T)
  have dsg: "distinct (map obs_id ?singles)"
    using H1 by (simp add: comp_def T)
  have bid: "by_id ?singles'' = by_id ?singles"
    unfolding by_id_def by (rule ext) (rule find_unique_perm[OF dsg msg])
  have re: "resolved_entry ?NM' ?MI' ?singles' = resolved_entry ?NM ?MI ?singles"
    by (rule ext) (simp add: resolved_entry_def ps pb bid)
  have mL: "mset ?L' = mset ?L"
    using mtl unfolding mset_top_level T .
  have mR: "mset ?R' = mset ?R"
    unfolding re mset_map mL ..
  have sL: "set ?L = set (top_level T raw)"
    using mset_top_level[of "map uuid ?TC" raw] unfolding T by (rule mset_eq_setD)
  have inj: "inj_on ?k (set (filter (\<lambda>x. conceptClass (item x) = u) ?R))" for u
  proof (rule inj_onI)
    fix x y
    assume x: "x \<in> set (filter (\<lambda>x. conceptClass (item x) = u) ?R)"
      and y: "y \<in> set (filter (\<lambda>x. conceptClass (item x) = u) ?R)"
      and k: "?k x = ?k y"
    from x have cx: "conceptClass (item x) = u" and xr: "x \<in> set ?R"
      by (simp_all only: set_filter mem_Collect_eq)
    from y have cy: "conceptClass (item y) = u" and yr: "y \<in> set ?R"
      by (simp_all only: set_filter mem_Collect_eq)
    from xr obtain e1 where e1: "e1 \<in> set ?L" "x = resolved_entry ?NM ?MI ?singles e1"
      unfolding set_map by blast
    from yr obtain e2 where e2: "e2 \<in> set ?L" "y = resolved_entry ?NM ?MI ?singles e2"
      unfolding set_map by blast
    have fc: "conceptClass (item (resolved_entry ?NM ?MI ?singles e)) = code e" for e
      by (simp add: resolved_entry_def parsed_single_def parsed_base_def
            getEntryConceptClassUuid_def)
    have ft: "effectiveDateTime (item (resolved_entry ?NM ?MI ?singles e)) = effectiveDateTime e"
      for e
      by (simp add: resolved_entry_def parsed_single_def parsed_base_def)
    have c1: "code e1 = u" using cx unfolding e1(2) fc .
    have c2: "code e2 = u" using cy unfolding e2(2) fc .
    have dd: "D (effectiveDateTime e1) = D (effectiveDateTime e2)"
      using k unfolding e1(2) e2(2) ft by simp
    have m1: "e1 \<in> set (top_level T raw)" using e1(1) unfolding sL .
    have m2: "e2 \<in> set (top_level T raw)" using e2(1) unfolding sL .
    have "e1 = e2" using bspec[OF bspec[OF H3 m1] m2] c1 c2 dd by simp
    then show "x = y" using e1 e2 by simp
  qed
  have srt: "sort_key ?k (filter (\<lambda>x. conceptClass (item x) = u) ?R')
      = sort_key ?k (filter (\<lambda>x. conceptClass (item x) = u) ?R)" for u
  proof (rule sort_key_eq_sort_key[symmetric])
    show "mset (filter (\<lambda>x. conceptClass (item x) = u) ?R)
        = mset (filter (\<lambda>x. conceptClass (item x) = u) ?R')"
      by (simp only: mset_filter mR)
    show "inj_on ?k (set (filter (\<lambda>x. conceptClass (item x) = u) ?R))" by (rule inj)
  qed
  have emp: "filter (\<lambda>x. conceptClass (item x) = u) ?R' \<noteq> []
      \<longleftrightarrow> filter (\<lambda>x. conceptClass (item x) = u) ?R \<noteq> []" for u
  proof -
    have "mset (filter (\<lambda>x. conceptClass (item x) = u) ?R')
        = mset (filter (\<lambda>x. conceptClass (item x) = u) ?R)"
      by (simp only: mset_filter mR)
    then have "length (filter (\<lambda>x. conceptClass (item x) = u) ?R')
        = length (filter (\<lambda>x. conceptClass (item x) = u) ?R)"
      by (rule mset_eq_length)
    then show ?thesis by (simp only: length_0_conv[symmetric])
  qed
  show "obj_get (reconstruct D C' raw') n = Some g \<longleftrightarrow> obj_get (reconstruct D C raw) n = Some g"
    unfolding aggregate_char[OF Hc1' Hc2' H1' H2']
      aggregate_char[OF Hc1 Hc2 H1[unfolded T] H2[unfolded T]]
      srt emp sTC ..
qed

theorem reconstruct_order_independent_witness:
  "mset [ex_raw_single ''b'' ''2024-01-05T08:00'',
         ex_raw_panel ''a1'' ''2024-01-05T08:00'' [''Observation/b'']]
     = mset [ex_raw_panel ''a1'' ''2024-01-05T08:00'' [''Observation/b''],
             ex_raw_single ''b'' ''2024-01-05T08:00'']
   \<and> mset (rev ex_concepts) = mset ex_concepts
   \<and> obj_get (reconstruct ex_Date_parse ex_concepts
          [ex_raw_panel ''a1'' ''2024-01-05T08:00'' [''Observation/b''],
           ex_raw_single ''b'' ''2024-01-05T08:00'']) ''CBC'' \<noteq> None
   \<and> obj_get (reconstruct ex_Date_parse (rev ex_concepts)
          [ex_raw_single ''b'' ''2024-01-05T08:00'',
           ex_raw_panel ''a1'' ''2024-01-05T08:00'' [''Observation/b'']]) ''CBC''
     = obj_get (reconstruct ex_Date_parse ex_concepts
          [ex_raw_panel ''a1'' ''2024-01-05T08:00'' [''Observation/b''],
           ex_raw_single ''b'' ''2024-01-05T08:00'']) ''CBC''"
proof -
  let ?raw = "[ex_raw_panel ''a1'' ''2024-01-05T08:00'' [''Observation/b''],
           ex_raw_single ''b'' ''2024-01-05T08:00'']"
  let ?raw' = "[ex_raw_single ''b'' ''2024-01-05T08:00'',
           ex_raw_panel ''a1'' ''2024-01-05T08:00'' [''Observation/b'']]"
  let ?T = "map uuid (test_concepts ex_concepts)"
  have p: "mset ?raw' = mset ?raw" by simp
  have pc: "mset (rev ex_concepts) = mset ex_concepts" by simp
  have c1: "distinct (map uuid (test_concepts ex_concepts))" by code_simp
  have c2: "distinct (map display (test_concepts ex_concepts))" by code_simp
  have h1: "distinct (map obs_id (raw_singles ?T ?raw))" by code_simp
  have h2: "distinct (concat (map slot_keys (raw_panels ?T ?raw)))" by code_simp
  have h3: "\<forall>e1 \<in> set (top_level ?T ?raw). \<forall>e2 \<in> set (top_level ?T ?raw).
               code e1 = code e2
               \<and> ex_Date_parse (effectiveDateTime e1) = ex_Date_parse (effectiveDateTime e2)
               \<longrightarrow> e1 = e2"
    by code_simp
  have ne: "obj_get (reconstruct ex_Date_parse ex_concepts ?raw) ''CBC'' \<noteq> None" by code_simp
  from reconstruct_order_independent[OF p pc c1 c2 h1 h2 h3, of "''CBC''"] p pc ne
  show ?thesis by blast
qed

text \<open>
  The claim as stated fails. Two results of one test with the same timestamp keep their
  raw order within the group, so the sorted groups of a list and of its permutation
  differ; and when two panels declare the same member, the panel that comes later in the
  raw list gets it.
\<close>

theorem reconstruct_order_dependent_counterexample:
  "mset [ex_raw_single ''c'' ''2024-01-05T08:00'', ex_raw_single ''b'' ''2024-01-05T08:00'']
     = mset [ex_raw_single ''b'' ''2024-01-05T08:00'', ex_raw_single ''c'' ''2024-01-05T08:00'']
   \<and> map (obs_id \<circ> item)
        (entries (the (obj_get (reconstruct ex_Date_parse ex_concepts
           [ex_raw_single ''b'' ''2024-01-05T08:00'', ex_raw_single ''c'' ''2024-01-05T08:00''])
         ''Hgb''))) = [''b'', ''c'']
   \<and> map (obs_id \<circ> item)
        (entries (the (obj_get (reconstruct ex_Date_parse ex_concepts
           [ex_raw_single ''c'' ''2024-01-05T08:00'', ex_raw_single ''b'' ''2024-01-05T08:00''])
         ''Hgb''))) = [''c'', ''b'']
   \<and> mset [ex_raw_panel ''a2'' ''2024-01-05T14:30'' [''Observation/b''],
           ex_raw_panel ''a1'' ''2024-01-05T08:00'' [''Observation/b''],
           ex_raw_single ''b'' ''2024-01-05T08:00'']
     = mset [ex_raw_panel ''a1'' ''2024-01-05T08:00'' [''Observation/b''],
             ex_raw_panel ''a2'' ''2024-01-05T14:30'' [''Observation/b''],
             ex_raw_single ''b'' ''2024-01-05T08:00'']
   \<and> map (map (map_option obs_id) \<circ> the \<circ> slots)
        (entries (the (obj_get (reconstruct ex_Date_parse ex_concepts
           [ex_raw_panel ''a1'' ''2024-01-05T08:00'' [''Observation/b''],
            ex_raw_panel ''a2'' ''2024-01-05T14:30'' [''Observation/b''],
            ex_raw_single ''b'' ''2024-01-05T08:00''])
         ''CBC''))) = [[Some ''b''], [None]]
   \<and> map (map (map_option obs_id) \<circ> the \<circ> slots)
        (entries (the (obj_get (reconstruct ex_Date_parse ex_concepts
           [ex_raw_panel ''a2'' ''2024-01-05T14:30'' [''Observation/b''],
            ex_raw_panel ''a1'' ''2024-01-05T08:00'' [''Observation/b''],
            ex_raw_single ''b'' ''2024-01-05T08:00''])
         ''CBC''))) = [[None], [Some ''b'']]"
proof -
  have 1: "mset [ex_raw_single ''c'' ''2024-01-05T08:00'', ex_raw_single ''b'' ''2024-01-05T08:00'']
     = mset [ex_raw_single ''b'' ''2024-01-05T08:00'', ex_raw_single ''c'' ''2024-01-05T08:00'']"
    by simp
  have 2: "map (obs_id \<circ> item)
        (entries (the (obj_get (reconstruct ex_Date_parse ex_concepts
           [ex_raw_single ''b'' ''2024-01-05T08:00'', ex_raw_single ''c'' ''2024-01-05T08:00''])
         ''Hgb''))) = [''b'', ''c'']"
    by code_simp
  have 3: "map (obs_id \<circ> item)
        (entries (the (obj_get (reconstruct ex_Date_parse ex_concepts
           [ex_raw_single ''c'' ''2024-01-05T08:00'', ex_raw_single ''b'' ''2024-01-05T08:00''])
         ''Hgb''))) = [''c'', ''b'']"
    by code_simp
  have 4: "mset [ex_raw_panel ''a2'' ''2024-01-05T14:30'' [''Observation/b''],
           ex_raw_panel ''a1'' ''2024-01-05T08:00'' [''Observation/b''],
           ex_raw_single ''b'' ''2024-01-05T08:00'']
     = mset [ex_raw_panel ''a1'' ''2024-01-05T08:00'' [''Observation/b''],
             ex_raw_panel ''a2'' ''2024-01-05T14:30'' [''Observation/b''],
             ex_raw_single ''b'' ''2024-01-05T08:00'']"
    by simp
  have 5: "map (map (map_option obs_id) \<circ> the \<circ> slots)
        (entries (the (obj_get (reconstruct ex_Date_parse ex_concepts
           [ex_raw_panel ''a1'' ''2024-01-05T08:00'' [''Observation/b''],
            ex_raw_panel ''a2'' ''2024-01-05T14:30'' [''Observation/b''],
            ex_raw_single ''b'' ''2024-01-05T08:00''])
         ''CBC''))) = [[Some ''b''], [None]]"
    by code_simp
  have 6: "map (map (map_option obs_id) \<circ> the \<circ> slots)
        (entries (the (obj_get (reconstruct ex_Date_parse ex_concepts
           [ex_raw_panel ''a2'' ''2024-01-05T14:30'' [''Observation/b''],
            ex_raw_panel ''a1'' ''2024-01-05T08:00'' [''Observation/b''],
            ex_raw_single ''b'' ''2024-01-05T08:00''])
         ''CBC''))) = [[None], [Some ''b'']]"
    by code_simp
  show ?thesis using 1 2 3 4 5 6 by blast
qed

section \<open>loadPatientData\<close>

text \<open>
  Claim C9. When the cache gives no aggregate and the fetch yields an empty raw entry
  list, \<open>loadPatientData\<close> fails with a type error (reading \<open>entries[0].id\<close>) instead of
  returning an empty aggregate, and leaves both caches as they were: nothing is stored.
\<close>

theorem loadPatientData_empty_fetch:
  assumes "getUserDataFromCache (fetch_observations w) obs_id (patientResultsDataCache st) p
             = Inr None"
    and "fst (loadObsEntries (fetch_observations w) p) = Inr []"
  shows "loadPatientData w st p = (Inl TypeError, st)"
  using assms by (simp add: loadPatientData_def loadPresentConcepts_def)

theorem loadPatientData_empty_fetch_witness:
  "getUserDataFromCache (paged_remote ([] :: FhirObs list)) obs_id
       [(''patient'', ([] :: PatientData, 5, ''obs-123''))] ''patient'' = Inr None
   \<and> fst (loadObsEntries (paged_remote ([] :: FhirObs list)) ''patient'') = Inr []
   \<and> loadPatientData
        \<lparr>fetch_observations = paged_remote [], fetch_concept = (\<lambda>u. Inl NetworkFailure),
         Date_parse = (\<lambda>s. 0), Date_now = 7\<rparr>
        \<lparr>patientResultsDataCache = [(''patient'', ([], 5, ''obs-123''))],
         conceptCache = Map.empty\<rparr>
        ''patient''
      = (Inl TypeError,
         \<lparr>patientResultsDataCache = [(''patient'', ([], 5, ''obs-123''))],
          conceptCache = Map.empty\<rparr>)"
proof -
  have h1: "getUserDataFromCache (paged_remote ([] :: FhirObs list)) obs_id
       [(''patient'', ([] :: PatientData, 5, ''obs-123''))] ''patient'' = Inr None"
    by (simp add: getUserDataFromCache_def obj_get_def getLatestObsUuid_def paged_remote_def)
  have "length ([] :: FhirObs list) \<le> CHUNK_PREFETCH_COUNT * PAGE_SIZE" by simp
  then have h2: "fst (loadObsEntries (paged_remote ([] :: FhirObs list)) ''patient'') = Inr []"
    by (simp add: loadObsEntries_paged_small)
  show ?thesis
    using h1 h2
      loadPatientData_empty_fetch
        [of "\<lparr>fetch_observations = paged_remote [], fetch_concept = (\<lambda>u. Inl NetworkFailure),
              Date_parse = (\<lambda>s. 0), Date_now = 7\<rparr>"
            "\<lparr>patientResultsDataCache = [(''patient'', ([], 5, ''obs-123''))],
              conceptCache = Map.empty\<rparr>" "''patient''"]
    by simp
qed

end
